theory Spec2Isabelle
  imports Main "HOL-Library.Sublist" "HOL-Library.Multiset"
begin

section \<open>Data model\<close>

text \<open>
  \<^verbatim>\<open>k8s.LogEntry\<close> (internal/k8s/client.go). Go strings are byte sequences, as
  \<^typ>\<open>string\<close> is a list of 8-bit characters.
\<close>

record LogEntry =
  Namespace :: string
  PodName :: string
  Container :: string
  LogContent :: string
  Timestamp :: string

section \<open>Log store (internal/storage/storage.go)\<close>

text \<open>
  \<^verbatim>\<open>LogStorage\<close> holds the slice \<^verbatim>\<open>logs\<close> and a \<^verbatim>\<open>sync.RWMutex\<close>. Every method
  takes the lock on entry and releases it on exit, so each call is one atomic
  transition of the slice; the lock itself carries no data.
\<close>

record LogStorage =
  store_logs :: "LogEntry list"

definition NewLogStorage :: LogStorage where
  "NewLogStorage = \<lparr>store_logs = []\<rparr>"

definition AddLog :: "LogStorage \<Rightarrow> LogEntry \<Rightarrow> LogStorage" where
  "AddLog ls log = ls\<lparr>store_logs := store_logs ls @ [log]\<rparr>"

definition GetLogs :: "LogStorage \<Rightarrow> LogEntry list" where
  "GetLogs ls = store_logs ls"

definition Clear :: "LogStorage \<Rightarrow> LogStorage" where
  "Clear ls = ls\<lparr>store_logs := []\<rparr>"

section \<open>The four patterns of analyzeLine\<close>

text \<open>
  The patterns are compiled by Go's \<^verbatim>\<open>regexp\<close> with the flag \<^verbatim>\<open>(?i)\<close>, and
  \<^verbatim>\<open>MatchString\<close> searches the content for a match starting anywhere. Under
  \<^verbatim>\<open>(?i)\<close> a pattern letter matches every member of its simple case-folding
  orbit: the lower-case and the upper-case ASCII letter and, for \<^verbatim>\<open>s\<close> and
  \<^verbatim>\<open>k\<close>, also U+017F (bytes C5 BF) and U+212A (bytes E2 84 AA). A character that
  is not a letter matches itself.
\<close>

definition to_lower :: "char \<Rightarrow> char" where
  "to_lower c =
     (case map_of (zip ''ABCDEFGHIJKLMNOPQRSTUVWXYZ'' ''abcdefghijklmnopqrstuvwxyz'') c of
        Some l \<Rightarrow> l
      | None \<Rightarrow> c)"

fun fold_char :: "char \<Rightarrow> string \<Rightarrow> string option" where
  "fold_char p [] = None"
| "fold_char p (c # cs) =
     (if to_lower c = to_lower p then Some cs
      else if to_lower p = CHR ''s'' \<and> c = CHR 0xC5 then
        (case cs of
           [] \<Rightarrow> None
         | d # ds \<Rightarrow> if d = CHR 0xBF then Some ds else None)
      else if to_lower p = CHR ''k'' \<and> c = CHR 0xE2 then
        (case cs of
           d # d' # ds \<Rightarrow> if d = CHR 0x84 \<and> d' = CHR 0xAA then Some ds else None
         | _ \<Rightarrow> None)
      else None)"

text \<open>A literal matched at the head of the input: the input left after it.\<close>

fun lit_prefix :: "string \<Rightarrow> string \<Rightarrow> string option" where
  "lit_prefix [] s = Some s"
| "lit_prefix (p # ps) s =
     (case fold_char p s of
        None \<Rightarrow> None
      | Some r \<Rightarrow> lit_prefix ps r)"

text \<open>A literal matched somewhere in the input.\<close>

fun contains_ci :: "string \<Rightarrow> string \<Rightarrow> bool" where
  "contains_ci pat [] = (lit_prefix pat [] \<noteq> None)"
| "contains_ci pat (c # cs) = (lit_prefix pat (c # cs) \<noteq> None \<or> contains_ci pat cs)"

text \<open>\<^verbatim>\<open>(?i)error|critical|fatal|panic\<close>\<close>

definition errorRegex :: "string \<Rightarrow> bool" where
  "errorRegex s =
     (contains_ci ''error'' s \<or> contains_ci ''critical'' s \<or>
      contains_ci ''fatal'' s \<or> contains_ci ''panic'' s)"

text \<open>\<^verbatim>\<open>(?i)warning|warn\<close>\<close>

definition warningRegex :: "string \<Rightarrow> bool" where
  "warningRegex s = (contains_ci ''warning'' s \<or> contains_ci ''warn'' s)"

text \<open>\<^verbatim>\<open>(?i)timeout|latency|slow|high load\<close>\<close>

definition performanceRegex :: "string \<Rightarrow> bool" where
  "performanceRegex s =
     (contains_ci ''timeout'' s \<or> contains_ci ''latency'' s \<or>
      contains_ci ''slow'' s \<or> contains_ci ''high load'' s)"

text \<open>
  \<^verbatim>\<open>container.*restart\<close>: the literal \<^verbatim>\<open>container\<close>, then any characters
  other than a newline, then the literal \<^verbatim>\<open>restart\<close>.
\<close>

fun container_restart :: "string \<Rightarrow> bool" where
  "container_restart [] = False"
| "container_restart (c # cs) =
     ((case lit_prefix ''container'' (c # cs) of
         None \<Rightarrow> False
       | Some r \<Rightarrow> contains_ci ''restart'' (takeWhile (\<lambda>x. x \<noteq> CHR 0x0A) r))
      \<or> container_restart cs)"

text \<open>
  \<^verbatim>\<open>(?i)pod|container.*restart\<close>: alternation binds weakest, so the pattern is
  \<^verbatim>\<open>pod\<close> or \<^verbatim>\<open>container.*restart\<close>.
\<close>

definition restartRegex :: "string \<Rightarrow> bool" where
  "restartRegex s = (contains_ci ''pod'' s \<or> container_restart s)"

section \<open>Classification engine (internal/analysis/analyser.go)\<close>

text \<open>
  The counters are Go \<^verbatim>\<open>int\<close>s. Each is incremented at most once per entry of
  \<^verbatim>\<open>logs\<close>, whose length is itself an \<^verbatim>\<open>int\<close>, so no increment wraps
  (\<open>counts_bounded\<close> below) and the counters are modelled as unbounded integers.
\<close>

record LogAnalyzer =
  logs :: "LogEntry list"
  criticalEvents :: "LogEntry list"
  performanceIssues :: "LogEntry list"
  errorCount :: int
  warningCount :: int

text \<open>
  \<^verbatim>\<open>analyzeLine\<close> receives the entry by value: the assignment to
  \<^verbatim>\<open>log.LogContent\<close> in the restart case changes the local copy only.
\<close>

definition analyzeLine :: "LogAnalyzer \<Rightarrow> LogEntry \<Rightarrow> LogAnalyzer" where
  "analyzeLine la log =
     (if errorRegex (LogContent log) then
        la\<lparr>errorCount := errorCount la + 1,
           criticalEvents := criticalEvents la @ [log]\<rparr>
      else if warningRegex (LogContent log) then
        la\<lparr>warningCount := warningCount la + 1\<rparr>
      else if performanceRegex (LogContent log) then
        la\<lparr>performanceIssues := performanceIssues la @ [log]\<rparr>
      else if restartRegex (LogContent log) then
        (let log' = log\<lparr>LogContent := ''Restart Event: '' @ LogContent log\<rparr>
         in la\<lparr>criticalEvents := criticalEvents la @ [log']\<rparr>)
      else la)"

definition processLogs :: "LogAnalyzer \<Rightarrow> LogAnalyzer" where
  "processLogs la = foldl analyzeLine la (logs la)"

definition NewLogAnalyzer :: "LogEntry list \<Rightarrow> LogAnalyzer" where
  "NewLogAnalyzer ls =
     processLogs \<lparr>logs = ls, criticalEvents = [], performanceIssues = [],
                  errorCount = 0, warningCount = 0\<rparr>"

text \<open>
  Notions used to state the results on whole batches: which branch of the
  switch an entry takes, and the value the critical branches append.
\<close>

definition to_critical :: "LogEntry \<Rightarrow> LogEntry" where
  "to_critical e =
     (if errorRegex (LogContent e) then e
      else e\<lparr>LogContent := ''Restart Event: '' @ LogContent e\<rparr>)"

definition goes_critical :: "LogEntry \<Rightarrow> bool" where
  "goes_critical e =
     (errorRegex (LogContent e) \<or>
      (\<not> warningRegex (LogContent e) \<and> \<not> performanceRegex (LogContent e) \<and>
       restartRegex (LogContent e)))"

definition goes_performance :: "LogEntry \<Rightarrow> bool" where
  "goes_performance e =
     (\<not> errorRegex (LogContent e) \<and> \<not> warningRegex (LogContent e) \<and>
      performanceRegex (LogContent e))"

section \<open>Report generator\<close>

text \<open>\<^verbatim>\<open>%d\<close> of \<^verbatim>\<open>fmt.Sprintf\<close>: the decimal digits, with a sign when negative.\<close>

definition digit_char :: "nat \<Rightarrow> char" where
  "digit_char d = ''0123456789'' ! d"

function show_nat :: "nat \<Rightarrow> string" where
  "show_nat n = (if n < 10 then [digit_char n] else show_nat (n div 10) @ [digit_char (n mod 10)])"
  by pat_completeness auto
termination
  by (relation "measure id") auto

definition show_int :: "int \<Rightarrow> string" where
  "show_int i = (if i < 0 then ''-'' @ show_nat (nat (- i)) else show_nat (nat i))"

text \<open>The line \<^verbatim>\<open>"- `%s | %s | %s`: %s\n"\<close> of one event.\<close>

definition event_line :: "LogEntry \<Rightarrow> string" where
  "event_line e =
     ''- `'' @ Timestamp e @ '' | '' @ PodName e @ '' | '' @ Container e @ ''`: '' @
     LogContent e @ ''\<newline>''"

definition generateDetailedReport :: "LogAnalyzer \<Rightarrow> string" where
  "generateDetailedReport la =
     (let report = ''### Kubernetes Log Analysis Report\<newline>\<newline>'';
          report = report @ ''- **Total Log Entries:** '' @ show_int (int (length (logs la))) @ ''\<newline>'';
          report = report @ ''- **Error Count:** '' @ show_int (errorCount la) @ ''\<newline>'';
          report = report @ ''- **Warning Count:** '' @ show_int (warningCount la) @ ''\<newline>\<newline>'';
          report = report @ ''#### Critical Events\<newline>'';
          report = (if length (criticalEvents la) > 0
                    then foldl (\<lambda>r event. r @ event_line event) report (criticalEvents la)
                    else report @ ''- No critical events detected.\<newline>'');
          report = report @ ''\<newline>#### Performance Issues\<newline>'';
          report = (if length (performanceIssues la) > 0
                    then foldl (\<lambda>r issue. r @ event_line issue) report (performanceIssues la)
                    else report @ ''- No significant performance issues detected.\<newline>'')
      in report)"

section \<open>Cluster collaborator (internal/k8s/client.go)\<close>

text \<open>
  The Kubernetes client is outside the repository. It is a parameter: what the
  API answers to the three requests the code makes, and the wall clock.
  \<^item> \<open>pods_list ns\<close>: the names of the items of the pod list of a namespace, or
    the API's error message;
  \<^item> \<open>pod_get ns p\<close>: the names of the containers of the pod's spec, or the error;
  \<^item> \<open>logs_stream ns p c\<close>: the bytes of the log stream, or the error of opening
    it, or the error of reading it;
  \<^item> \<open>now p c i\<close>: \<^verbatim>\<open>time.Now().Format(time.RFC3339)\<close> as read when line \<open>i\<close> of
    the stream of container \<open>c\<close> of pod \<open>p\<close> is turned into an entry.
\<close>

datatype stream_result = StreamError string | ReadError string | Bytes string

record cluster =
  pods_list :: "string \<Rightarrow> string + string list"
  pod_get :: "string \<Rightarrow> string \<Rightarrow> string + string list"
  logs_stream :: "string \<Rightarrow> string \<Rightarrow> string \<Rightarrow> stream_result"
  now :: "string \<Rightarrow> string \<Rightarrow> nat \<Rightarrow> string"

definition ListPods :: "cluster \<Rightarrow> string \<Rightarrow> string + string list" where
  "ListPods client ns =
     (case pods_list client ns of
        Inl err \<Rightarrow> Inl err
      | Inr podNames \<Rightarrow> Inr podNames)"

definition ListContainers :: "cluster \<Rightarrow> string \<Rightarrow> string \<Rightarrow> string + string list" where
  "ListContainers client ns podName =
     (case pod_get client ns podName of
        Inl err \<Rightarrow> Inl err
      | Inr containerNames \<Rightarrow> Inr containerNames)"

text \<open>\<^verbatim>\<open>strings.Split(s, "\n")\<close>: the pieces between newlines; one piece for no newline.\<close>

fun Split_nl :: "string \<Rightarrow> string list" where
  "Split_nl [] = [[]]"
| "Split_nl (c # cs) =
     (if c = CHR 0x0A then [] # Split_nl cs
      else (case Split_nl cs of
              [] \<Rightarrow> [[c]]
            | l # ls \<Rightarrow> (c # l) # ls))"

text \<open>The loop over the lines: an empty line is skipped, any other becomes an entry.\<close>

fun parse_lines :: "cluster \<Rightarrow> string \<Rightarrow> string \<Rightarrow> string \<Rightarrow> nat \<Rightarrow> string list \<Rightarrow> LogEntry list" where
  "parse_lines client ns podName containerName i [] = []"
| "parse_lines client ns podName containerName i (line # rest) =
     (if line = [] then parse_lines client ns podName containerName (Suc i) rest
      else \<lparr>Namespace = ns, PodName = podName, Container = containerName,
             LogContent = line, Timestamp = now client podName containerName i\<rparr>
           # parse_lines client ns podName containerName (Suc i) rest)"

definition RetrievePodLogs :: "cluster \<Rightarrow> string \<Rightarrow> string \<Rightarrow> string \<Rightarrow> string + LogEntry list" where
  "RetrievePodLogs client ns podName containerName =
     (case logs_stream client ns podName containerName of
        StreamError err \<Rightarrow> Inl (''error opening log stream: '' @ err)
      | ReadError err \<Rightarrow> Inl (''error reading logs: '' @ err)
      | Bytes logBytes \<Rightarrow>
          Inr (parse_lines client ns podName containerName 0 (Split_nl logBytes)))"

section \<open>Retrieval orchestrator: retrieveLogs (cmd/root.go)\<close>

text \<open>The package-level flags read by \<^verbatim>\<open>retrieveLogs\<close>.\<close>

record flags =
  namespace :: string
  pod :: string
  container :: string

text \<open>
  \<^verbatim>\<open>retrieveLogs\<close> runs as goroutines: the calling one (main), one per pod, one
  per container, the one that closes the channels, and the consumer. The model
  is the interleaving of their steps. A state holds the program point of each
  goroutine and the shared objects: the WaitGroup counter \<^verbatim>\<open>wg\<close>, the two
  buffered channels (capacity 100 and 10) with their closed flags, the log
  store, the consumer's counter, and what \<^verbatim>\<open>color.Red\<close> has printed. It also
  records the requests made to the cluster, and whether the program has
  panicked (a send on a closed channel, a negative WaitGroup counter).
\<close>

datatype main_pc =
    MStart
  | MSpawnPods "string list"
  | MSpawnConsumer
  | MWait
  | MReturned "string option"

text \<open>
  A pod or container goroutine, by what it does next: resolve the pod's
  containers; spawn the goroutines of the remaining containers; fetch a
  container's logs; send the remaining entries; send an error; run the
  deferred \<^verbatim>\<open>wg.Done()\<close> after the error was sent.
\<close>

datatype task =
    PodStart string
  | PodSpawn string "string list"
  | CtrStart string string
  | SendLogs "LogEntry list"
  | SendErr string
  | Exiting

datatype closer_pc = CNotStarted | CWait | CCloseLog | CCloseErr | CDone

datatype consumer_pc = KNotStarted | KSelect | KDone

datatype call = CallListPods string | CallGetPod string string | CallGetLogs string string string

record state =
  main :: main_pc
  tasks :: "task list"
  wg :: nat
  logBuf :: "LogEntry list"
  logClosed :: bool
  errBuf :: "string list"
  errClosed :: bool
  closer :: closer_pc
  consumer :: consumer_pc
  logStore :: LogStorage
  totalLogs :: int
  printed :: "string list"
  calls :: "call list"
  panicked :: bool

text \<open>The state when \<^verbatim>\<open>retrieveLogs\<close> is entered, with the store as the caller left it.\<close>

definition retrieveLogs_entry :: "LogStorage \<Rightarrow> state" where
  "retrieveLogs_entry st =
     \<lparr>main = MStart, tasks = [], wg = 0, logBuf = [], logClosed = False,
      errBuf = [], errClosed = False, closer = CNotStarted, consumer = KNotStarted,
      logStore = st, totalLogs = 0, printed = [], calls = [], panicked = False\<rparr>"

text \<open>
  The calling goroutine: resolve the pods (the only step that makes it return
  an error); per pod \<^verbatim>\<open>wg.Add(1)\<close> and \<^verbatim>\<open>go\<close>; start the closer; start the
  consumer; wait for the consumer in \<^verbatim>\<open>logsProcessed.Wait()\<close>; return nil.
\<close>

fun main_step :: "cluster \<Rightarrow> flags \<Rightarrow> main_pc \<Rightarrow> state \<Rightarrow> state option" where
  "main_step client fl MStart s =
     (if pod fl = [] then
        (case ListPods client (namespace fl) of
           Inl err \<Rightarrow>
             Some (s\<lparr>main := MReturned (Some (''failed to list pods: '' @ err)),
                     calls := calls s @ [CallListPods (namespace fl)]\<rparr>)
         | Inr podList \<Rightarrow>
             Some (s\<lparr>main := MSpawnPods podList,
                     calls := calls s @ [CallListPods (namespace fl)]\<rparr>))
      else Some (s\<lparr>main := MSpawnPods [pod fl]\<rparr>))"
| "main_step client fl (MSpawnPods (podName # rest)) s =
     Some (s\<lparr>wg := wg s + 1, tasks := tasks s @ [PodStart podName], main := MSpawnPods rest\<rparr>)"
| "main_step client fl (MSpawnPods []) s = Some (s\<lparr>closer := CWait, main := MSpawnConsumer\<rparr>)"
| "main_step client fl MSpawnConsumer s = Some (s\<lparr>consumer := KSelect, main := MWait\<rparr>)"
| "main_step client fl MWait s =
     (if consumer s = KDone then Some (s\<lparr>main := MReturned None\<rparr>) else None)"
| "main_step client fl (MReturned r) s = None"

text \<open>
  The deferred \<^verbatim>\<open>wg.Done()\<close> that ends goroutine \<open>i\<close>. A counter below zero
  panics.
\<close>

definition wg_Done :: "nat \<Rightarrow> state \<Rightarrow> state" where
  "wg_Done i s =
     (if wg s = 0 then s\<lparr>panicked := True\<rparr>
      else s\<lparr>wg := wg s - 1, tasks := take i (tasks s) @ drop (Suc i) (tasks s)\<rparr>)"

text \<open>
  One step of goroutine \<open>i\<close>. A send blocks (no step) while the buffer is full
  and panics on a closed channel.
\<close>

fun task_step :: "cluster \<Rightarrow> flags \<Rightarrow> nat \<Rightarrow> task \<Rightarrow> state \<Rightarrow> state option" where
  "task_step client fl i (PodStart podName) s =
     (if container fl \<noteq> [] then
        Some (s\<lparr>tasks := (tasks s)[i := PodSpawn podName [container fl]]\<rparr>)
      else
        (case ListContainers client (namespace fl) podName of
           Inl err \<Rightarrow>
             Some (s\<lparr>tasks := (tasks s)[i := SendErr
                        (''failed to list containers for pod '' @ podName @ '': '' @ err)],
                     calls := calls s @ [CallGetPod (namespace fl) podName]\<rparr>)
         | Inr podContainers \<Rightarrow>
             Some (s\<lparr>tasks := (tasks s)[i := PodSpawn podName podContainers],
                     calls := calls s @ [CallGetPod (namespace fl) podName]\<rparr>)))"
| "task_step client fl i (PodSpawn podName (containerName # rest)) s =
     Some (s\<lparr>wg := wg s + 1,
             tasks := (tasks s)[i := PodSpawn podName rest] @ [CtrStart podName containerName]\<rparr>)"
| "task_step client fl i (PodSpawn podName []) s = Some (wg_Done i s)"
| "task_step client fl i (CtrStart podName containerName) s =
     (case RetrievePodLogs client (namespace fl) podName containerName of
        Inl err \<Rightarrow>
          Some (s\<lparr>tasks := (tasks s)[i := SendErr
                     (''failed to retrieve logs for pod '' @ podName @ '', container '' @
                      containerName @ '': '' @ err)],
                  calls := calls s @ [CallGetLogs (namespace fl) podName containerName]\<rparr>)
      | Inr ls \<Rightarrow>
          Some (s\<lparr>tasks := (tasks s)[i := SendLogs ls],
                  calls := calls s @ [CallGetLogs (namespace fl) podName containerName]\<rparr>))"
| "task_step client fl i (SendLogs (log # rest)) s =
     (if logClosed s then Some (s\<lparr>panicked := True\<rparr>)
      else if length (logBuf s) < 100 then
        Some (s\<lparr>logBuf := logBuf s @ [log], tasks := (tasks s)[i := SendLogs rest]\<rparr>)
      else None)"
| "task_step client fl i (SendLogs []) s = Some (wg_Done i s)"
| "task_step client fl i (SendErr err) s =
     (if errClosed s then Some (s\<lparr>panicked := True\<rparr>)
      else if length (errBuf s) < 10 then
        Some (s\<lparr>errBuf := errBuf s @ [err], tasks := (tasks s)[i := Exiting]\<rparr>)
      else None)"
| "task_step client fl i Exiting s = Some (wg_Done i s)"

text \<open>The closer: \<^verbatim>\<open>wg.Wait()\<close>, \<^verbatim>\<open>close(logChan)\<close>, \<^verbatim>\<open>close(errorChan)\<close>.\<close>

fun closer_step :: "closer_pc \<Rightarrow> state \<Rightarrow> state option" where
  "closer_step CWait s = (if wg s = 0 then Some (s\<lparr>closer := CCloseLog\<rparr>) else None)"
| "closer_step CCloseLog s = Some (s\<lparr>logClosed := True, closer := CCloseErr\<rparr>)"
| "closer_step CCloseErr s = Some (s\<lparr>errClosed := True, closer := CDone\<rparr>)"
| "closer_step CNotStarted s = None"
| "closer_step CDone s = None"

text \<open>
  The consumer's \<^verbatim>\<open>select\<close> taking the case of \<^verbatim>\<open>logChan\<close>: an entry is stored
  and counted; on the closed and empty channel the goroutine returns.
\<close>

definition select_log :: "state \<Rightarrow> state option" where
  "select_log s =
     (if consumer s \<noteq> KSelect then None
      else (case logBuf s of
              log # rest \<Rightarrow>
                Some (s\<lparr>logBuf := rest, logStore := AddLog (logStore s) log,
                        totalLogs := totalLogs s + 1\<rparr>)
            | [] \<Rightarrow> if logClosed s then Some (s\<lparr>consumer := KDone\<rparr>) else None))"

text \<open>
  The \<^verbatim>\<open>select\<close> taking the case of \<^verbatim>\<open>errorChan\<close>: an error is printed; on
  the closed and empty channel \<^verbatim>\<open>break\<close> leaves the \<^verbatim>\<open>select\<close> and the loop
  goes on.
\<close>

definition select_err :: "state \<Rightarrow> state option" where
  "select_err s =
     (if consumer s \<noteq> KSelect then None
      else (case errBuf s of
              err # rest \<Rightarrow> Some (s\<lparr>errBuf := rest, printed := printed s @ [''Error: '' @ err]\<rparr>)
            | [] \<Rightarrow> if errClosed s then Some s else None))"

text \<open>
  The scheduler's choice: which goroutine takes its next step and, for the
  consumer, which ready case the \<^verbatim>\<open>select\<close> takes. A choice that cannot
  proceed (a blocked or absent goroutine, a case that is not ready) gives
  \<open>None\<close>, as does any choice after a panic.
\<close>

datatype action = RunMain | RunTask nat | RunCloser | SelectLog | SelectErr

fun step :: "cluster \<Rightarrow> flags \<Rightarrow> action \<Rightarrow> state \<Rightarrow> state option" where
  "step client fl a s =
     (if panicked s then None
      else (case a of
              RunMain \<Rightarrow> main_step client fl (main s) s
            | RunTask i \<Rightarrow>
                if i < length (tasks s) then task_step client fl i (tasks s ! i) s else None
            | RunCloser \<Rightarrow> closer_step (closer s) s
            | SelectLog \<Rightarrow> select_log s
            | SelectErr \<Rightarrow> select_err s))"

fun run :: "cluster \<Rightarrow> flags \<Rightarrow> action list \<Rightarrow> state \<Rightarrow> state option" where
  "run client fl [] s = Some s"
| "run client fl (a # as) s =
     (case step client fl a s of
        None \<Rightarrow> None
      | Some s' \<Rightarrow> run client fl as s')"

text \<open>
  What a run is to deliver, read off the cluster's answers: the entries of a
  container, of a pod, and of the whole run.
\<close>

definition ctr_logs :: "cluster \<Rightarrow> flags \<Rightarrow> string \<Rightarrow> string \<Rightarrow> LogEntry list" where
  "ctr_logs client fl p c =
     (case RetrievePodLogs client (namespace fl) p c of
        Inl err \<Rightarrow> []
      | Inr ls \<Rightarrow> ls)"

definition pod_containers :: "cluster \<Rightarrow> flags \<Rightarrow> string \<Rightarrow> string + string list" where
  "pod_containers client fl p =
     (if container fl \<noteq> [] then Inr [container fl]
      else ListContainers client (namespace fl) p)"

definition pod_logs :: "cluster \<Rightarrow> flags \<Rightarrow> string \<Rightarrow> LogEntry list" where
  "pod_logs client fl p =
     (case pod_containers client fl p of
        Inl err \<Rightarrow> []
      | Inr cs \<Rightarrow> concat (map (ctr_logs client fl p) cs))"

definition resolve_pods :: "cluster \<Rightarrow> flags \<Rightarrow> string + string list" where
  "resolve_pods client fl =
     (if pod fl = [] then ListPods client (namespace fl) else Inr [pod fl])"

definition all_logs :: "cluster \<Rightarrow> flags \<Rightarrow> LogEntry list" where
  "all_logs client fl =
     (case resolve_pods client fl of
        Inl err \<Rightarrow> []
      | Inr ps \<Rightarrow> concat (map (pod_logs client fl) ps))"

text \<open>The entries a goroutine, and the calling goroutine, has still to bring about.\<close>

fun task_logs :: "cluster \<Rightarrow> flags \<Rightarrow> task \<Rightarrow> LogEntry list" where
  "task_logs client fl (PodStart p) = pod_logs client fl p"
| "task_logs client fl (PodSpawn p cs) = concat (map (ctr_logs client fl p) cs)"
| "task_logs client fl (CtrStart p c) = ctr_logs client fl p c"
| "task_logs client fl (SendLogs ls) = ls"
| "task_logs client fl (SendErr err) = []"
| "task_logs client fl Exiting = []"

fun main_logs :: "cluster \<Rightarrow> flags \<Rightarrow> main_pc \<Rightarrow> LogEntry list" where
  "main_logs client fl MStart = all_logs client fl"
| "main_logs client fl (MSpawnPods ps) = concat (map (pod_logs client fl) ps)"
| "main_logs client fl MSpawnConsumer = []"
| "main_logs client fl MWait = []"
| "main_logs client fl (MReturned r) = []"

text \<open>Every entry of the run is in exactly one place: stored, buffered, or still to come.\<close>

definition flow :: "cluster \<Rightarrow> flags \<Rightarrow> state \<Rightarrow> LogEntry multiset" where
  "flow client fl s =
     mset (store_logs (logStore s)) + mset (logBuf s) +
     (\<Sum>t\<leftarrow>tasks s. mset (task_logs client fl t)) +
     mset (main_logs client fl (main s))"

text \<open>
  The errors a run is to report, read off the cluster's answers, and the ones a
  goroutine has still to bring about.
\<close>

definition ctr_errs :: "cluster \<Rightarrow> flags \<Rightarrow> string \<Rightarrow> string \<Rightarrow> string list" where
  "ctr_errs client fl p c =
     (case RetrievePodLogs client (namespace fl) p c of
        Inl err \<Rightarrow>
          [''failed to retrieve logs for pod '' @ p @ '', container '' @ c @ '': '' @ err]
      | Inr ls \<Rightarrow> [])"

definition pod_errs :: "cluster \<Rightarrow> flags \<Rightarrow> string \<Rightarrow> string list" where
  "pod_errs client fl p =
     (case pod_containers client fl p of
        Inl err \<Rightarrow> [''failed to list containers for pod '' @ p @ '': '' @ err]
      | Inr cs \<Rightarrow> concat (map (ctr_errs client fl p) cs))"

definition all_errs :: "cluster \<Rightarrow> flags \<Rightarrow> string list" where
  "all_errs client fl =
     (case resolve_pods client fl of
        Inl err \<Rightarrow> []
      | Inr ps \<Rightarrow> concat (map (pod_errs client fl) ps))"

fun task_errs :: "cluster \<Rightarrow> flags \<Rightarrow> task \<Rightarrow> string list" where
  "task_errs client fl (PodStart p) = pod_errs client fl p"
| "task_errs client fl (PodSpawn p cs) = concat (map (ctr_errs client fl p) cs)"
| "task_errs client fl (CtrStart p c) = ctr_errs client fl p c"
| "task_errs client fl (SendLogs ls) = []"
| "task_errs client fl (SendErr err) = [err]"
| "task_errs client fl Exiting = []"

fun main_errs :: "cluster \<Rightarrow> flags \<Rightarrow> main_pc \<Rightarrow> string list" where
  "main_errs client fl MStart = all_errs client fl"
| "main_errs client fl (MSpawnPods ps) = concat (map (pod_errs client fl) ps)"
| "main_errs client fl MSpawnConsumer = []"
| "main_errs client fl MWait = []"
| "main_errs client fl (MReturned r) = []"

text \<open>The line \<^verbatim>\<open>color.Red("Error: %v", err)\<close> prints for an error.\<close>

definition red :: "string \<Rightarrow> string" where
  "red err = ''Error: '' @ err"

text \<open>Every error of the run is in exactly one place: printed, buffered, or still to come.\<close>

definition errflow :: "cluster \<Rightarrow> flags \<Rightarrow> state \<Rightarrow> string multiset" where
  "errflow client fl s =
     mset (printed s) + mset (map red (errBuf s)) +
     (\<Sum>t\<leftarrow>tasks s. mset (map red (task_errs client fl t))) +
     mset (map red (main_errs client fl (main s)))"

text \<open>
  The program points that can occur together, and what each of them says about
  the shared objects: the closer and the consumer exist once the calling
  goroutine has started them; the closer passes \<^verbatim>\<open>wg.Wait()\<close> only when no
  pod or container goroutine is left, and none is started afterwards; the
  consumer returns only on the closed and empty \<^verbatim>\<open>logChan\<close>.
\<close>

fun pcs_ok :: "main_pc \<Rightarrow> closer_pc \<Rightarrow> consumer_pc \<Rightarrow> task list \<Rightarrow> bool" where
  "pcs_ok MStart c k ts = (c = CNotStarted \<and> k = KNotStarted \<and> ts = [])"
| "pcs_ok (MSpawnPods ps) c k ts = (c = CNotStarted \<and> k = KNotStarted)"
| "pcs_ok MSpawnConsumer c k ts = (c \<noteq> CNotStarted \<and> k = KNotStarted)"
| "pcs_ok MWait c k ts = (c \<noteq> CNotStarted \<and> k \<noteq> KNotStarted)"
| "pcs_ok (MReturned None) c k ts = (c \<noteq> CNotStarted \<and> k = KDone)"
| "pcs_ok (MReturned (Some e)) c k ts = (c = CNotStarted \<and> k = KNotStarted \<and> ts = [])"

fun closer_ok :: "closer_pc \<Rightarrow> bool \<Rightarrow> bool \<Rightarrow> task list \<Rightarrow> bool" where
  "closer_ok CNotStarted lc ec ts = (\<not> lc \<and> \<not> ec)"
| "closer_ok CWait lc ec ts = (\<not> lc \<and> \<not> ec)"
| "closer_ok CCloseLog lc ec ts = (\<not> lc \<and> \<not> ec \<and> ts = [])"
| "closer_ok CCloseErr lc ec ts = (lc \<and> \<not> ec \<and> ts = [])"
| "closer_ok CDone lc ec ts = (lc \<and> ec \<and> ts = [])"

fun consumer_ok :: "consumer_pc \<Rightarrow> bool \<Rightarrow> LogEntry list \<Rightarrow> bool" where
  "consumer_ok KDone lc buf = (lc \<and> buf = [])"
| "consumer_ok KNotStarted lc buf = True"
| "consumer_ok KSelect lc buf = True"

definition consistent :: "state \<Rightarrow> bool" where
  "consistent s =
     (\<not> panicked s \<and> wg s = length (tasks s) \<and>
      pcs_ok (main s) (closer s) (consumer s) (tasks s) \<and>
      closer_ok (closer s) (logClosed s) (errClosed s) (tasks s) \<and>
      consumer_ok (consumer s) (logClosed s) (logBuf s))"

text \<open>The calling goroutine returns an error only from the pod listing.\<close>

definition fatal_ok :: "cluster \<Rightarrow> flags \<Rightarrow> state \<Rightarrow> bool" where
  "fatal_ok client fl s =
     (case main s of
        MReturned (Some e) \<Rightarrow>
          pod fl = [] \<and>
          (case ListPods client (namespace fl) of
             Inl err \<Rightarrow> e = ''failed to list pods: '' @ err
           | Inr ps \<Rightarrow> False)
      | _ \<Rightarrow> True)"

text \<open>
  A bound on the steps a run still needs when the scheduler never lets a
  goroutine wait: what each goroutine has left to do, plus what is buffered.
\<close>

definition ctr_work :: "cluster \<Rightarrow> flags \<Rightarrow> string \<Rightarrow> string \<Rightarrow> nat" where
  "ctr_work client fl p c =
     1 + (case RetrievePodLogs client (namespace fl) p c of
            Inl err \<Rightarrow> 3
          | Inr ls \<Rightarrow> 2 * length ls + 1)"

definition spawn_work :: "cluster \<Rightarrow> flags \<Rightarrow> string \<Rightarrow> string list \<Rightarrow> nat" where
  "spawn_work client fl p cs = 1 + (\<Sum>c\<leftarrow>cs. 1 + ctr_work client fl p c)"

definition pod_work :: "cluster \<Rightarrow> flags \<Rightarrow> string \<Rightarrow> nat" where
  "pod_work client fl p =
     1 + (case pod_containers client fl p of
            Inl err \<Rightarrow> 3
          | Inr cs \<Rightarrow> spawn_work client fl p cs)"

fun task_work :: "cluster \<Rightarrow> flags \<Rightarrow> task \<Rightarrow> nat" where
  "task_work client fl (PodStart p) = pod_work client fl p"
| "task_work client fl (PodSpawn p cs) = spawn_work client fl p cs"
| "task_work client fl (CtrStart p c) = ctr_work client fl p c"
| "task_work client fl (SendLogs ls) = 2 * length ls + 1"
| "task_work client fl (SendErr err) = 3"
| "task_work client fl Exiting = 1"

fun main_work :: "cluster \<Rightarrow> flags \<Rightarrow> main_pc \<Rightarrow> nat" where
  "main_work client fl MStart =
     1 + (case resolve_pods client fl of
            Inl err \<Rightarrow> 0
          | Inr ps \<Rightarrow> (\<Sum>p\<leftarrow>ps. 1 + pod_work client fl p) + 3)"
| "main_work client fl (MSpawnPods ps) = (\<Sum>p\<leftarrow>ps. 1 + pod_work client fl p) + 3"
| "main_work client fl MSpawnConsumer = 2"
| "main_work client fl MWait = 1"
| "main_work client fl (MReturned r) = 0"

fun closer_work :: "closer_pc \<Rightarrow> nat" where
  "closer_work CNotStarted = 3"
| "closer_work CWait = 3"
| "closer_work CCloseLog = 2"
| "closer_work CCloseErr = 1"
| "closer_work CDone = 0"

fun consumer_work :: "consumer_pc \<Rightarrow> nat" where
  "consumer_work KNotStarted = 1"
| "consumer_work KSelect = 1"
| "consumer_work KDone = 0"

definition work :: "cluster \<Rightarrow> flags \<Rightarrow> state \<Rightarrow> nat" where
  "work client fl s =
     main_work client fl (main s) + (\<Sum>t\<leftarrow>tasks s. task_work client fl t) +
     length (logBuf s) + length (errBuf s) + closer_work (closer s) +
     consumer_work (consumer s)"

text \<open>
  Concrete runs: a cluster of two pods with two containers of two lines each,
  run to completion; a pod with one container that delivers a line and one
  whose stream cannot be opened, run so that both channels are closed before
  the consumer's first \<^verbatim>\<open>select\<close>, and run so that the consumer takes the
  error before the channels are closed; a cluster whose pod listing fails.
\<close>

definition demo_cluster :: cluster where
  "demo_cluster =
     \<lparr>pods_list = (\<lambda>ns. Inr [''p1'', ''p2'']),
      pod_get = (\<lambda>ns p. Inr [''c1'', ''c2'']),
      logs_stream = (\<lambda>ns p c. Bytes ''a\<newline>b\<newline>''),
      now = (\<lambda>p c i. ''t'')\<rparr>"

definition demo_flags :: flags where
  "demo_flags = \<lparr>namespace = ''n'', pod = [], container = []\<rparr>"

definition demo_schedule :: "action list" where
  "demo_schedule =
     replicate 5 RunMain @ replicate 24 (RunTask 0) @ replicate 3 RunCloser @
     replicate 9 SelectLog @ [RunMain]"

definition partial_cluster :: cluster where
  "partial_cluster =
     \<lparr>pods_list = (\<lambda>ns. Inr []),
      pod_get = (\<lambda>ns p. Inr [''c1'', ''c2'']),
      logs_stream = (\<lambda>ns p c. if c = ''c2'' then StreamError ''boom'' else Bytes ''x\<newline>''),
      now = (\<lambda>p c i. ''t'')\<rparr>"

definition partial_flags :: flags where
  "partial_flags = \<lparr>namespace = ''n'', pod = ''p'', container = []\<rparr>"

definition partial_schedule :: "action list" where
  "partial_schedule =
     replicate 4 RunMain @ replicate 10 (RunTask 0) @ replicate 3 RunCloser @
     replicate 2 SelectLog @ [RunMain]"

definition delivered_schedule :: "action list" where
  "delivered_schedule =
     replicate 4 RunMain @ replicate 10 (RunTask 0) @ [SelectLog, SelectErr] @
     replicate 3 RunCloser @ [SelectLog, RunMain]"

definition failing_cluster :: cluster where
  "failing_cluster =
     \<lparr>pods_list = (\<lambda>ns. Inl ''forbidden''),
      pod_get = (\<lambda>ns p. Inr [''c1'', ''c2'']),
      logs_stream = (\<lambda>ns p c. Bytes ''a\<newline>b\<newline>''),
      now = (\<lambda>p c i. ''t'')\<rparr>"

section \<open>Results\<close>

subsection \<open>Log store\<close>

lemma foldl_AddLog: "store_logs (foldl AddLog ls es) = store_logs ls @ es"
  by (induction es arbitrary: ls) (simp_all add: AddLog_def)

text \<open>
  Claim C7. Appending an entry and then taking a snapshot gives the previous
  sequence with the entry at its end, so the snapshot contains the entry;
  clearing and then taking a snapshot gives the empty sequence; appending N
  entries one after the other and then taking one snapshot gives the previous
  sequence followed by exactly those N entries, each once.
\<close>

theorem store_round_trip:
  "GetLogs (AddLog ls e) = GetLogs ls @ [e] \<and>
   e \<in> set (GetLogs (AddLog ls e)) \<and>
   GetLogs (Clear ls) = [] \<and>
   GetLogs (foldl AddLog ls es) = GetLogs ls @ es \<and>
   GetLogs (foldl AddLog NewLogStorage es) = es \<and>
   length (GetLogs (foldl AddLog ls es)) = length (GetLogs ls) + length es \<and>
   mset (GetLogs (foldl AddLog ls es)) = mset (GetLogs ls) + mset es"
  by (simp add: GetLogs_def AddLog_def Clear_def NewLogStorage_def foldl_AddLog)

subsection \<open>Classification\<close>

lemma crit_foldl:
  "criticalEvents (foldl analyzeLine la es) =
     criticalEvents la @ map to_critical (filter goes_critical es)"
  by (induction es arbitrary: la)
     (simp_all add: analyzeLine_def to_critical_def goes_critical_def Let_def)

lemma perf_foldl:
  "performanceIssues (foldl analyzeLine la es) =
     performanceIssues la @ filter goes_performance es"
  by (induction es arbitrary: la)
     (simp_all add: analyzeLine_def goes_performance_def Let_def)

lemma errorCount_foldl:
  "errorCount (foldl analyzeLine la es) =
     errorCount la + int (length (filter (\<lambda>e. errorRegex (LogContent e)) es))"
  by (induction es arbitrary: la) (simp_all add: analyzeLine_def Let_def)

lemma warningCount_foldl:
  "warningCount (foldl analyzeLine la es) =
     warningCount la +
     int (length (filter (\<lambda>e. \<not> errorRegex (LogContent e) \<and> warningRegex (LogContent e)) es))"
  by (induction es arbitrary: la) (simp_all add: analyzeLine_def Let_def)

lemma logs_foldl: "logs (foldl analyzeLine la es) = logs la"
  by (induction es arbitrary: la) (simp_all add: analyzeLine_def Let_def)


lemma counts_bounded:
  "0 \<le> errorCount (NewLogAnalyzer ls) \<and> errorCount (NewLogAnalyzer ls) \<le> int (length ls) \<and>
   0 \<le> warningCount (NewLogAnalyzer ls) \<and> warningCount (NewLogAnalyzer ls) \<le> int (length ls)"
  by (simp add: NewLogAnalyzer_def processLogs_def errorCount_foldl warningCount_foldl)

text \<open>
  Claim C3. analyzeLine takes one decision per entry, the first matching case
  in the order error, warning, performance, restart, and applies that case's
  effect only. An entry whose content matches the error pattern increments the
  error count and is appended unmodified to critical-events, whatever else it
  matches. Per entry at most one of warning count, critical-events and
  performance-issues grows, by one, and the error count grows only together
  with critical-events.
\<close>

theorem first_match_wins:
  "(errorRegex (LogContent e) \<longrightarrow>
      analyzeLine la e =
        la\<lparr>errorCount := errorCount la + 1, criticalEvents := criticalEvents la @ [e]\<rparr>) \<and>
   (\<not> errorRegex (LogContent e) \<and> warningRegex (LogContent e) \<longrightarrow>
      analyzeLine la e = la\<lparr>warningCount := warningCount la + 1\<rparr>) \<and>
   (\<not> errorRegex (LogContent e) \<and> \<not> warningRegex (LogContent e) \<and>
    performanceRegex (LogContent e) \<longrightarrow>
      analyzeLine la e = la\<lparr>performanceIssues := performanceIssues la @ [e]\<rparr>) \<and>
   (\<not> errorRegex (LogContent e) \<and> \<not> warningRegex (LogContent e) \<and>
    \<not> performanceRegex (LogContent e) \<and> restartRegex (LogContent e) \<longrightarrow>
      analyzeLine la e =
        la\<lparr>criticalEvents :=
             criticalEvents la @ [e\<lparr>LogContent := ''Restart Event: '' @ LogContent e\<rparr>]\<rparr>) \<and>
   (warningCount (analyzeLine la e) - warningCount la) +
   (int (length (criticalEvents (analyzeLine la e))) - int (length (criticalEvents la))) +
   (int (length (performanceIssues (analyzeLine la e))) - int (length (performanceIssues la)))
     \<le> 1 \<and>
   errorCount (analyzeLine la e) - errorCount la
     \<le> int (length (criticalEvents (analyzeLine la e))) - int (length (criticalEvents la))"
  by (simp add: analyzeLine_def Let_def)

text \<open>
  An entry matching all four patterns is classified by the error case only.
\<close>

theorem first_match_wins_witness:
  "errorRegex ''ERROR: warning, pod restart timeout'' \<and>
   warningRegex ''ERROR: warning, pod restart timeout'' \<and>
   performanceRegex ''ERROR: warning, pod restart timeout'' \<and>
   restartRegex ''ERROR: warning, pod restart timeout'' \<and>
   analyzeLine (NewLogAnalyzer [])
     \<lparr>Namespace = ''n'', PodName = ''p'', Container = ''c'',
      LogContent = ''ERROR: warning, pod restart timeout'', Timestamp = ''t''\<rparr> =
   \<lparr>logs = [],
    criticalEvents =
      [\<lparr>Namespace = ''n'', PodName = ''p'', Container = ''c'',
        LogContent = ''ERROR: warning, pod restart timeout'', Timestamp = ''t''\<rparr>],
    performanceIssues = [], errorCount = 1, warningCount = 0\<rparr>"
proof -
  have e: "errorRegex ''ERROR: warning, pod restart timeout''" by code_simp
  have w: "warningRegex ''ERROR: warning, pod restart timeout''" by code_simp
  have p: "performanceRegex ''ERROR: warning, pod restart timeout''" by code_simp
  have r: "restartRegex ''ERROR: warning, pod restart timeout''" by code_simp
  show ?thesis
    using e w p r
      first_match_wins [of "\<lparr>Namespace = ''n'', PodName = ''p'', Container = ''c'',
        LogContent = ''ERROR: warning, pod restart timeout'', Timestamp = ''t''\<rparr>"
        "NewLogAnalyzer []"]
    by (simp add: NewLogAnalyzer_def processLogs_def)
qed

text \<open>
  The switch has no default case: an entry whose content matches none of the
  four regular expressions leaves the analyzer as it was, both counts and both
  lists unchanged.
\<close>

theorem no_match_no_effect:
  assumes "\<not> errorRegex (LogContent e)" and "\<not> warningRegex (LogContent e)"
    and "\<not> performanceRegex (LogContent e)" and "\<not> restartRegex (LogContent e)"
  shows "analyzeLine la e = la"
  using assms by (simp add: analyzeLine_def)

theorem no_match_no_effect_witness:
  "\<not> errorRegex ''INFO start'' \<and> \<not> warningRegex ''INFO start'' \<and>
   \<not> performanceRegex ''INFO start'' \<and> \<not> restartRegex ''INFO start'' \<and>
   analyzeLine (NewLogAnalyzer [])
     \<lparr>Namespace = ''n'', PodName = ''p'', Container = ''c1'',
      LogContent = ''INFO start'', Timestamp = ''t''\<rparr> = NewLogAnalyzer []"
proof -
  have e: "\<not> errorRegex ''INFO start''" by code_simp
  have w: "\<not> warningRegex ''INFO start''" by code_simp
  have p: "\<not> performanceRegex ''INFO start''" by code_simp
  have r: "\<not> restartRegex ''INFO start''" by code_simp
  show ?thesis
    using e w p r
      no_match_no_effect [of "\<lparr>Namespace = ''n'', PodName = ''p'', Container = ''c1'',
        LogContent = ''INFO start'', Timestamp = ''t''\<rparr>" "NewLogAnalyzer []"]
    by simp
qed

text \<open>
  Claim C4 fails on the code. The content "pod scheduled" has no error,
  warning or performance token and no restart phrasing: it contains neither
  "restart" nor "container". But the restart expression
  \<^verbatim>\<open>(?i)pod|container.*restart\<close> reads as \<^verbatim>\<open>pod\<close> or \<^verbatim>\<open>container.*restart\<close>, so
  the letters "pod" alone match it, and classifying the entry has a side
  effect: its copy "Restart Event: pod scheduled" is appended to
  critical-events.
\<close>

theorem pod_line_side_effect:
  "\<not> errorRegex ''pod scheduled'' \<and> \<not> warningRegex ''pod scheduled'' \<and>
   \<not> performanceRegex ''pod scheduled'' \<and>
   \<not> contains_ci ''restart'' ''pod scheduled'' \<and>
   \<not> contains_ci ''container'' ''pod scheduled'' \<and>
   analyzeLine (NewLogAnalyzer [])
     \<lparr>Namespace = ''n'', PodName = ''p'', Container = ''c'',
      LogContent = ''pod scheduled'', Timestamp = ''t''\<rparr> =
   \<lparr>logs = [],
    criticalEvents =
      [\<lparr>Namespace = ''n'', PodName = ''p'', Container = ''c'',
        LogContent = ''Restart Event: pod scheduled'', Timestamp = ''t''\<rparr>],
    performanceIssues = [], errorCount = 0, warningCount = 0\<rparr> \<and>
   analyzeLine (NewLogAnalyzer [])
     \<lparr>Namespace = ''n'', PodName = ''p'', Container = ''c'',
      LogContent = ''pod scheduled'', Timestamp = ''t''\<rparr> \<noteq> NewLogAnalyzer []"
proof -
  have e: "\<not> errorRegex ''pod scheduled''" by code_simp
  have w: "\<not> warningRegex ''pod scheduled''" by code_simp
  have p: "\<not> performanceRegex ''pod scheduled''" by code_simp
  have r: "restartRegex ''pod scheduled''" by code_simp
  have n: "\<not> contains_ci ''restart'' ''pod scheduled''" by code_simp
  have c: "\<not> contains_ci ''container'' ''pod scheduled''" by code_simp
  have a: "analyzeLine (NewLogAnalyzer [])
     \<lparr>Namespace = ''n'', PodName = ''p'', Container = ''c'',
      LogContent = ''pod scheduled'', Timestamp = ''t''\<rparr> =
   \<lparr>logs = [],
    criticalEvents =
      [\<lparr>Namespace = ''n'', PodName = ''p'', Container = ''c'',
        LogContent = ''Restart Event: pod scheduled'', Timestamp = ''t''\<rparr>],
    performanceIssues = [], errorCount = 0, warningCount = 0\<rparr>"
    using e w p r by (simp add: analyzeLine_def NewLogAnalyzer_def processLogs_def Let_def)
  have d: "analyzeLine (NewLogAnalyzer [])
     \<lparr>Namespace = ''n'', PodName = ''p'', Container = ''c'',
      LogContent = ''pod scheduled'', Timestamp = ''t''\<rparr> \<noteq> NewLogAnalyzer []"
    unfolding a by (simp add: NewLogAnalyzer_def processLogs_def)
  show ?thesis
    using e w p n c a d by (simp del: contains_ci.simps)
qed

text \<open>
  Claim C5. An entry classified by the restart case (the restart pattern
  matches and no earlier pattern does) is appended to critical-events as a
  copy whose content is "Restart Event: " followed by the original content;
  the counts and performance-issues are unchanged, and the input batch held by
  the analyzer, hence the store's sequence it was read from, still holds the
  original entry.
\<close>

theorem restart_copy:
  assumes "\<not> errorRegex (LogContent e)" and "\<not> warningRegex (LogContent e)"
    and "\<not> performanceRegex (LogContent e)" and "restartRegex (LogContent e)"
  shows "criticalEvents (analyzeLine la e) =
           criticalEvents la @ [e\<lparr>LogContent := ''Restart Event: '' @ LogContent e\<rparr>] \<and>
         errorCount (analyzeLine la e) = errorCount la \<and>
         warningCount (analyzeLine la e) = warningCount la \<and>
         performanceIssues (analyzeLine la e) = performanceIssues la \<and>
         logs (analyzeLine la e) = logs la \<and>
         logs (NewLogAnalyzer (GetLogs st)) = GetLogs st \<and>
         logs (processLogs la) = logs la"
  using assms by (simp add: analyzeLine_def Let_def processLogs_def NewLogAnalyzer_def logs_foldl)

theorem restart_copy_witness:
  "\<not> errorRegex ''pod restarted unexpectedly'' \<and>
   \<not> warningRegex ''pod restarted unexpectedly'' \<and>
   \<not> performanceRegex ''pod restarted unexpectedly'' \<and>
   restartRegex ''pod restarted unexpectedly'' \<and>
   NewLogAnalyzer
     [\<lparr>Namespace = ''n'', PodName = ''p'', Container = ''c'',
       LogContent = ''pod restarted unexpectedly'', Timestamp = ''t''\<rparr>] =
   \<lparr>logs =
      [\<lparr>Namespace = ''n'', PodName = ''p'', Container = ''c'',
        LogContent = ''pod restarted unexpectedly'', Timestamp = ''t''\<rparr>],
    criticalEvents =
      [\<lparr>Namespace = ''n'', PodName = ''p'', Container = ''c'',
        LogContent = ''Restart Event: pod restarted unexpectedly'', Timestamp = ''t''\<rparr>],
    performanceIssues = [], errorCount = 0, warningCount = 0\<rparr>"
proof -
  let ?e = "\<lparr>Namespace = ''n'', PodName = ''p'', Container = ''c'',
       LogContent = ''pod restarted unexpectedly'', Timestamp = ''t''\<rparr>"
  let ?la = "\<lparr>logs = [?e], criticalEvents = [], performanceIssues = [],
       errorCount = 0, warningCount = 0\<rparr>"
  have e: "\<not> errorRegex ''pod restarted unexpectedly''" by code_simp
  have w: "\<not> warningRegex ''pod restarted unexpectedly''" by code_simp
  have p: "\<not> performanceRegex ''pod restarted unexpectedly''" by code_simp
  have r: "restartRegex ''pod restarted unexpectedly''" by code_simp
  have "NewLogAnalyzer [?e] = analyzeLine ?la ?e"
    by (simp add: NewLogAnalyzer_def processLogs_def)
  moreover have "analyzeLine ?la ?e =
      \<lparr>logs = logs (analyzeLine ?la ?e), criticalEvents = criticalEvents (analyzeLine ?la ?e),
       performanceIssues = performanceIssues (analyzeLine ?la ?e),
       errorCount = errorCount (analyzeLine ?la ?e),
       warningCount = warningCount (analyzeLine ?la ?e)\<rparr>"
    by simp
  ultimately show ?thesis
    using e w p r restart_copy [of ?e ?la] by simp
qed

lemma subseq_map_filter: "subseq (map f (filter P xs)) (map f xs)"
  by (induction xs) auto

text \<open>
  Claim C6, as amended. performance-issues is an ordered subsequence of the
  input batch. critical-events is an ordered subsequence of the input batch in
  which every entry not matching the error pattern is replaced by its
  "Restart Event: " copy: it is the entries taking the error or restart case,
  in input order, the restart ones as their prefixed copies.
\<close>

theorem order_preserved:
  "performanceIssues (NewLogAnalyzer ls) = filter goes_performance ls \<and>
   criticalEvents (NewLogAnalyzer ls) = map to_critical (filter goes_critical ls) \<and>
   subseq (performanceIssues (NewLogAnalyzer ls)) ls \<and>
   subseq (criticalEvents (NewLogAnalyzer ls)) (map to_critical ls)"
  by (simp add: NewLogAnalyzer_def processLogs_def crit_foldl perf_foldl subseq_map_filter)

text \<open>
  Claim C6 as stated fails: for a batch of one restart-case entry,
  critical-events holds the prefixed copy, which is no entry of the batch.
\<close>

theorem critical_not_subseq_counterexample:
  "\<not> subseq
       (criticalEvents (NewLogAnalyzer
          [\<lparr>Namespace = ''n'', PodName = ''p'', Container = ''c'',
            LogContent = ''pod restarted unexpectedly'', Timestamp = ''t''\<rparr>]))
       [\<lparr>Namespace = ''n'', PodName = ''p'', Container = ''c'',
         LogContent = ''pod restarted unexpectedly'', Timestamp = ''t''\<rparr>]"
proof -
  have e: "\<not> errorRegex ''pod restarted unexpectedly''" by code_simp
  have w: "\<not> warningRegex ''pod restarted unexpectedly''" by code_simp
  have p: "\<not> performanceRegex ''pod restarted unexpectedly''" by code_simp
  have r: "restartRegex ''pod restarted unexpectedly''" by code_simp
  show ?thesis
    using e w p r
    by (simp add: NewLogAnalyzer_def processLogs_def analyzeLine_def Let_def)
qed

theorem order_preserved_witness:
  "criticalEvents (NewLogAnalyzer
      [\<lparr>Namespace = ''n'', PodName = ''p'', Container = ''c'',
        LogContent = ''slow query'', Timestamp = ''t1''\<rparr>,
       \<lparr>Namespace = ''n'', PodName = ''p'', Container = ''c'',
        LogContent = ''pod restarted unexpectedly'', Timestamp = ''t2''\<rparr>,
       \<lparr>Namespace = ''n'', PodName = ''p'', Container = ''c'',
        LogContent = ''WARN disk nearly full'', Timestamp = ''t3''\<rparr>,
       \<lparr>Namespace = ''n'', PodName = ''p'', Container = ''c'',
        LogContent = ''ERROR timeout reaching db'', Timestamp = ''t4''\<rparr>]) =
     [\<lparr>Namespace = ''n'', PodName = ''p'', Container = ''c'',
       LogContent = ''Restart Event: pod restarted unexpectedly'', Timestamp = ''t2''\<rparr>,
      \<lparr>Namespace = ''n'', PodName = ''p'', Container = ''c'',
       LogContent = ''ERROR timeout reaching db'', Timestamp = ''t4''\<rparr>] \<and>
   performanceIssues (NewLogAnalyzer
      [\<lparr>Namespace = ''n'', PodName = ''p'', Container = ''c'',
        LogContent = ''slow query'', Timestamp = ''t1''\<rparr>,
       \<lparr>Namespace = ''n'', PodName = ''p'', Container = ''c'',
        LogContent = ''pod restarted unexpectedly'', Timestamp = ''t2''\<rparr>,
       \<lparr>Namespace = ''n'', PodName = ''p'', Container = ''c'',
        LogContent = ''WARN disk nearly full'', Timestamp = ''t3''\<rparr>,
       \<lparr>Namespace = ''n'', PodName = ''p'', Container = ''c'',
        LogContent = ''ERROR timeout reaching db'', Timestamp = ''t4''\<rparr>]) =
     [\<lparr>Namespace = ''n'', PodName = ''p'', Container = ''c'',
       LogContent = ''slow query'', Timestamp = ''t1''\<rparr>]"
proof -
  have a: "\<not> errorRegex ''slow query'' \<and> \<not> warningRegex ''slow query'' \<and>
           performanceRegex ''slow query''" by code_simp
  have b: "\<not> errorRegex ''pod restarted unexpectedly'' \<and>
           \<not> warningRegex ''pod restarted unexpectedly'' \<and>
           \<not> performanceRegex ''pod restarted unexpectedly'' \<and>
           restartRegex ''pod restarted unexpectedly''" by code_simp
  have c: "\<not> errorRegex ''WARN disk nearly full'' \<and> warningRegex ''WARN disk nearly full''"
    by code_simp
  have d: "errorRegex ''ERROR timeout reaching db''" by code_simp
  show ?thesis
    using a b c d
      order_preserved [of "[\<lparr>Namespace = ''n'', PodName = ''p'', Container = ''c'',
        LogContent = ''slow query'', Timestamp = ''t1''\<rparr>,
       \<lparr>Namespace = ''n'', PodName = ''p'', Container = ''c'',
        LogContent = ''pod restarted unexpectedly'', Timestamp = ''t2''\<rparr>,
       \<lparr>Namespace = ''n'', PodName = ''p'', Container = ''c'',
        LogContent = ''WARN disk nearly full'', Timestamp = ''t3''\<rparr>,
       \<lparr>Namespace = ''n'', PodName = ''p'', Container = ''c'',
        LogContent = ''ERROR timeout reaching db'', Timestamp = ''t4''\<rparr>]"]
    by (simp add: goes_performance_def goes_critical_def to_critical_def)
qed

lemma foldl_append_lines: "foldl (\<lambda>r x. r @ f x) r xs = r @ concat (map f xs)"
  by (induction xs arbitrary: r) simp_all

text \<open>
  Claim C9. The report is a function of the analyzer state alone: a heading,
  the total entry count, the error count and the warning count, a
  critical-events section with one line per event (timestamp, pod, container,
  content) or a placeholder line when there is none, and a
  performance-issues section of the same shape with its own placeholder.
  Classifying the empty batch gives zero counts and empty lists, and its report
  shows zero entries and both placeholders.
\<close>

theorem report_layout:
  "generateDetailedReport la =
     ''### Kubernetes Log Analysis Report\<newline>\<newline>'' @
     ''- **Total Log Entries:** '' @ show_int (int (length (logs la))) @ ''\<newline>'' @
     ''- **Error Count:** '' @ show_int (errorCount la) @ ''\<newline>'' @
     ''- **Warning Count:** '' @ show_int (warningCount la) @ ''\<newline>\<newline>'' @
     ''#### Critical Events\<newline>'' @
     (if criticalEvents la = [] then ''- No critical events detected.\<newline>''
      else concat (map event_line (criticalEvents la))) @
     ''\<newline>#### Performance Issues\<newline>'' @
     (if performanceIssues la = [] then ''- No significant performance issues detected.\<newline>''
      else concat (map event_line (performanceIssues la))) \<and>
   event_line e =
     ''- `'' @ Timestamp e @ '' | '' @ PodName e @ '' | '' @ Container e @ ''`: '' @
     LogContent e @ ''\<newline>'' \<and>
   NewLogAnalyzer [] =
     \<lparr>logs = [], criticalEvents = [], performanceIssues = [],
      errorCount = 0, warningCount = 0\<rparr> \<and>
   generateDetailedReport (NewLogAnalyzer []) =
     ''### Kubernetes Log Analysis Report\<newline>\<newline>- **Total Log Entries:** 0\<newline>- **Error Count:** 0\<newline>- **Warning Count:** 0\<newline>\<newline>#### Critical Events\<newline>- No critical events detected.\<newline>\<newline>#### Performance Issues\<newline>- No significant performance issues detected.\<newline>''"
proof -
  have z: "show_int 0 = ''0''"
    by (simp add: show_int_def digit_char_def)
  have n: "NewLogAnalyzer [] =
     \<lparr>logs = [], criticalEvents = [], performanceIssues = [],
      errorCount = 0, warningCount = 0\<rparr>"
    by (simp add: NewLogAnalyzer_def processLogs_def)
  have g: "generateDetailedReport la =
     ''### Kubernetes Log Analysis Report\<newline>\<newline>'' @
     ''- **Total Log Entries:** '' @ show_int (int (length (logs la))) @ ''\<newline>'' @
     ''- **Error Count:** '' @ show_int (errorCount la) @ ''\<newline>'' @
     ''- **Warning Count:** '' @ show_int (warningCount la) @ ''\<newline>\<newline>'' @
     ''#### Critical Events\<newline>'' @
     (if criticalEvents la = [] then ''- No critical events detected.\<newline>''
      else concat (map event_line (criticalEvents la))) @
     ''\<newline>#### Performance Issues\<newline>'' @
     (if performanceIssues la = [] then ''- No significant performance issues detected.\<newline>''
      else concat (map event_line (performanceIssues la)))" for la
    unfolding generateDetailedReport_def Let_def foldl_append_lines
    by (cases "criticalEvents la"; cases "performanceIssues la") simp_all
  show ?thesis
    unfolding n
    apply (intro conjI)
       apply (rule g)
      apply (simp add: event_line_def)
     apply simp
    apply (simp add: g z)
    done
qed

theorem report_layout_witness:
  "generateDetailedReport
     \<lparr>logs = [\<lparr>Namespace = ''n'', PodName = ''p'', Container = ''c1'',
               LogContent = ''ERROR timeout reaching db'', Timestamp = ''t''\<rparr>],
      criticalEvents = [\<lparr>Namespace = ''n'', PodName = ''p'', Container = ''c1'',
               LogContent = ''ERROR timeout reaching db'', Timestamp = ''t''\<rparr>],
      performanceIssues = [], errorCount = 1, warningCount = 0\<rparr> =
   ''### Kubernetes Log Analysis Report\<newline>\<newline>- **Total Log Entries:** 1\<newline>- **Error Count:** 1\<newline>- **Warning Count:** 0\<newline>\<newline>#### Critical Events\<newline>- `t | p | c1`: ERROR timeout reaching db\<newline>\<newline>#### Performance Issues\<newline>- No significant performance issues detected.\<newline>''"
proof -
  have z: "show_int 0 = ''0''" "show_int 1 = ''1''"
    by (simp_all add: show_int_def digit_char_def)
  show ?thesis
    using report_layout [of "\<lparr>logs = [\<lparr>Namespace = ''n'', PodName = ''p'', Container = ''c1'',
               LogContent = ''ERROR timeout reaching db'', Timestamp = ''t''\<rparr>],
      criticalEvents = [\<lparr>Namespace = ''n'', PodName = ''p'', Container = ''c1'',
               LogContent = ''ERROR timeout reaching db'', Timestamp = ''t''\<rparr>],
      performanceIssues = [], errorCount = 1, warningCount = 0\<rparr>"]
    by (simp add: z event_line_def)
qed

lemma contains_ci_append: "contains_ci pat s \<Longrightarrow> contains_ci pat (pre @ s)"
  by (induction pre) (auto simp del: lit_prefix.simps)

lemma to_lower_idem: "to_lower (CHR ''p'') = CHR ''p''" "to_lower (CHR ''o'') = CHR ''o''"
  "to_lower (CHR ''d'') = CHR ''d''"
  by code_simp+

text \<open>
  Claim C10. The restart pattern \<^verbatim>\<open>(?i)pod|container.*restart\<close> is matched by the
  bare letters "pod" in any case. So an entry whose content contains them and
  matches none of the error, warning and performance patterns takes the restart
  case: it is appended to critical-events with the prefix "Restart Event: ".
\<close>

theorem pod_substring_is_restart:
  assumes "LogContent e = pre @ [a, b, c] @ post"
    and "to_lower a = CHR ''p''" and "to_lower b = CHR ''o''" and "to_lower c = CHR ''d''"
    and "\<not> errorRegex (LogContent e)" and "\<not> warningRegex (LogContent e)"
    and "\<not> performanceRegex (LogContent e)"
  shows "restartRegex (LogContent e) \<and>
         analyzeLine la e =
           la\<lparr>criticalEvents :=
                criticalEvents la @ [e\<lparr>LogContent := ''Restart Event: '' @ LogContent e\<rparr>]\<rparr>"
proof -
  have "lit_prefix ''pod'' ([a, b, c] @ post) = Some post"
    using assms(2-4) by (simp add: to_lower_idem)
  then have "contains_ci ''pod'' ([a, b, c] @ post)"
    by (simp del: lit_prefix.simps)
  then have "contains_ci ''pod'' (LogContent e)"
    unfolding assms(1) by (rule contains_ci_append)
  then have r: "restartRegex (LogContent e)"
    by (simp add: restartRegex_def)
  with assms(5-7) show ?thesis
    by (simp add: analyzeLine_def Let_def)
qed

theorem pod_substring_is_restart_witness:
  "\<not> errorRegex ''pod scheduled'' \<and> \<not> warningRegex ''pod scheduled'' \<and>
   \<not> performanceRegex ''pod scheduled'' \<and>
   analyzeLine (NewLogAnalyzer [])
     \<lparr>Namespace = ''n'', PodName = ''p'', Container = ''c'',
      LogContent = ''pod scheduled'', Timestamp = ''t''\<rparr> =
   \<lparr>logs = [],
    criticalEvents =
      [\<lparr>Namespace = ''n'', PodName = ''p'', Container = ''c'',
        LogContent = ''Restart Event: pod scheduled'', Timestamp = ''t''\<rparr>],
    performanceIssues = [], errorCount = 0, warningCount = 0\<rparr>"
proof -
  have e: "\<not> errorRegex ''pod scheduled''" by code_simp
  have w: "\<not> warningRegex ''pod scheduled''" by code_simp
  have p: "\<not> performanceRegex ''pod scheduled''" by code_simp
  have l: "to_lower (CHR ''p'') = CHR ''p''" "to_lower (CHR ''o'') = CHR ''o''"
    "to_lower (CHR ''d'') = CHR ''d''"
    by code_simp+
  show ?thesis
    using e w p l
      pod_substring_is_restart [of "\<lparr>Namespace = ''n'', PodName = ''p'', Container = ''c'',
        LogContent = ''pod scheduled'', Timestamp = ''t''\<rparr>" "[]" "CHR ''p''" "CHR ''o''"
        "CHR ''d''" "'' scheduled''" "NewLogAnalyzer []"]
    by (simp add: NewLogAnalyzer_def processLogs_def)
qed

subsection \<open>Retrieval orchestrator\<close>

lemma sum_list_upd:
  fixes f :: "'a \<Rightarrow> 'b multiset"
  assumes "i < length ts"
  shows "(\<Sum>t\<leftarrow>ts[i := u]. f t) + f (ts ! i) = (\<Sum>t\<leftarrow>ts. f t) + f u"
proof -
  have "ts = take i ts @ ts ! i # drop (Suc i) ts"
    using assms by (rule id_take_nth_drop)
  then have a: "(\<Sum>t\<leftarrow>ts. f t) = (\<Sum>t\<leftarrow>take i ts. f t) + f (ts ! i) + (\<Sum>t\<leftarrow>drop (Suc i) ts. f t)"
    by (metis map_append sum_list.append list.simps(9) sum_list.Cons add.assoc)
  have "ts[i := u] = take i ts @ u # drop (Suc i) ts"
    using assms by (rule upd_conv_take_nth_drop)
  then have b: "(\<Sum>t\<leftarrow>ts[i := u]. f t) = (\<Sum>t\<leftarrow>take i ts. f t) + f u + (\<Sum>t\<leftarrow>drop (Suc i) ts. f t)"
    by simp
  show ?thesis unfolding a b by (simp add: ac_simps)
qed

lemma sum_list_del:
  fixes f :: "'a \<Rightarrow> 'b multiset"
  assumes "i < length ts"
  shows "(\<Sum>t\<leftarrow>take i ts @ drop (Suc i) ts. f t) + f (ts ! i) = (\<Sum>t\<leftarrow>ts. f t)"
proof -
  have "ts = take i ts @ ts ! i # drop (Suc i) ts"
    using assms by (rule id_take_nth_drop)
  then have a: "(\<Sum>t\<leftarrow>ts. f t) = (\<Sum>t\<leftarrow>take i ts. f t) + f (ts ! i) + (\<Sum>t\<leftarrow>drop (Suc i) ts. f t)"
    by (metis map_append sum_list.append list.simps(9) sum_list.Cons add.assoc)
  show ?thesis unfolding a by (simp add: ac_simps)
qed

lemma flow_main:
  assumes "main_step client fl (main s) s = Some s'"
  shows "flow client fl s' = flow client fl s"
  using assms
  by (cases "(client, fl, main s, s)" rule: main_step.cases)
     (auto simp: flow_def all_logs_def resolve_pods_def split: if_splits sum.splits)


lemma flow_wg_Done:
  assumes "i < length (tasks s)" and "task_logs client fl (tasks s ! i) = []"
  shows "flow client fl (wg_Done i s) = flow client fl s"
proof -
  have "(\<Sum>t\<leftarrow>take i (tasks s) @ drop (Suc i) (tasks s). mset (task_logs client fl t)) =
        (\<Sum>t\<leftarrow>tasks s. mset (task_logs client fl t))"
    using sum_list_del [OF assms(1), of "\<lambda>t. mset (task_logs client fl t)"] assms(2) by simp
  then show ?thesis
    by (simp add: flow_def wg_Done_def)
qed

lemma flow_set_task:
  assumes "i < length (tasks s)"
    and "mset (task_logs client fl u) + extra = mset (task_logs client fl (tasks s ! i))"
  shows "(\<Sum>t\<leftarrow>(tasks s)[i := u]. mset (task_logs client fl t)) + extra =
         (\<Sum>t\<leftarrow>tasks s. mset (task_logs client fl t))"
proof -
  have "(\<Sum>t\<leftarrow>(tasks s)[i := u]. mset (task_logs client fl t)) + extra +
          mset (task_logs client fl (tasks s ! i)) =
        (\<Sum>t\<leftarrow>tasks s. mset (task_logs client fl t)) + mset (task_logs client fl (tasks s ! i))"
    using sum_list_upd [OF assms(1), of "\<lambda>t. mset (task_logs client fl t)" u] assms(2)
    by (simp add: ac_simps)
  then show ?thesis by simp
qed

lemma flow_task:
  assumes "i < length (tasks s)" and "task_step client fl i (tasks s ! i) s = Some s'"
  shows "flow client fl s' = flow client fl s"
proof (cases "tasks s ! i")
  case (PodStart p)
  have "(\<Sum>t\<leftarrow>(tasks s)[i := u]. mset (task_logs client fl t)) =
        (\<Sum>t\<leftarrow>tasks s. mset (task_logs client fl t))"
    if "task_logs client fl u = pod_logs client fl p" for u
    using flow_set_task [OF assms(1), of client fl u "{#}"] that PodStart by simp
  then show ?thesis
    using assms(2) PodStart
    by (auto simp: flow_def pod_logs_def pod_containers_def split: if_splits sum.splits)
next
  case (PodSpawn p cs)
  show ?thesis
  proof (cases cs)
    case Nil
    then show ?thesis
      using assms PodSpawn flow_wg_Done [OF assms(1), of client fl] by simp
  next
    case (Cons c rest)
    have "(\<Sum>t\<leftarrow>(tasks s)[i := PodSpawn p rest]. mset (task_logs client fl t)) +
            mset (ctr_logs client fl p c) =
          (\<Sum>t\<leftarrow>tasks s. mset (task_logs client fl t))"
      using flow_set_task [OF assms(1), of client fl "PodSpawn p rest" "mset (ctr_logs client fl p c)"]
        PodSpawn Cons by simp
    then show ?thesis
      using assms(2) PodSpawn Cons by (auto simp: flow_def ac_simps)
  qed
next
  case (CtrStart p c)
  have "(\<Sum>t\<leftarrow>(tasks s)[i := u]. mset (task_logs client fl t)) =
        (\<Sum>t\<leftarrow>tasks s. mset (task_logs client fl t))"
    if "task_logs client fl u = ctr_logs client fl p c" for u
    using flow_set_task [OF assms(1), of client fl u "{#}"] that CtrStart by simp
  then show ?thesis
    using assms(2) CtrStart
    by (auto simp: flow_def ctr_logs_def split: if_splits sum.splits)
next
  case (SendLogs ls)
  show ?thesis
  proof (cases ls)
    case Nil
    then show ?thesis
      using assms SendLogs flow_wg_Done [OF assms(1), of client fl] by simp
  next
    case (Cons l rest)
    have "(\<Sum>t\<leftarrow>(tasks s)[i := SendLogs rest]. mset (task_logs client fl t)) + {#l#} =
          (\<Sum>t\<leftarrow>tasks s. mset (task_logs client fl t))"
      using flow_set_task [OF assms(1), of client fl "SendLogs rest" "{#l#}"] SendLogs Cons
      by simp
    then show ?thesis
      using assms(2) SendLogs Cons by (auto simp: flow_def ac_simps split: if_splits)
  qed
next
  case (SendErr e)
  have "(\<Sum>t\<leftarrow>(tasks s)[i := Exiting]. mset (task_logs client fl t)) =
        (\<Sum>t\<leftarrow>tasks s. mset (task_logs client fl t))"
    using flow_set_task [OF assms(1), of client fl Exiting "{#}"] SendErr by simp
  then show ?thesis
    using assms(2) SendErr by (auto simp: flow_def split: if_splits)
next
  case Exiting
  then show ?thesis
    using assms flow_wg_Done [OF assms(1), of client fl] by simp
qed

lemma flow_closer:
  assumes "closer_step (closer s) s = Some s'"
  shows "flow client fl s' = flow client fl s"
  using assms
  by (cases "closer s") (auto simp: flow_def split: if_splits)

lemma flow_select_log:
  assumes "select_log s = Some s'"
  shows "flow client fl s' = flow client fl s"
  using assms
  by (auto simp: select_log_def flow_def AddLog_def split: if_splits list.splits)

lemma flow_select_err:
  assumes "select_err s = Some s'"
  shows "flow client fl s' = flow client fl s"
  using assms
  by (auto simp: select_err_def flow_def split: if_splits list.splits)

lemma flow_step:
  assumes "step client fl a s = Some s'"
  shows "flow client fl s' = flow client fl s"
proof (cases a)
  case RunMain
  then have "main_step client fl (main s) s = Some s'"
    using assms by (simp split: if_splits)
  then show ?thesis by (rule flow_main)
next
  case (RunTask i)
  then have "i < length (tasks s)" "task_step client fl i (tasks s ! i) s = Some s'"
    using assms by (simp_all split: if_splits)
  then show ?thesis by (rule flow_task)
next
  case RunCloser
  then have "closer_step (closer s) s = Some s'"
    using assms by (simp split: if_splits)
  then show ?thesis by (rule flow_closer)
next
  case SelectLog
  then have "select_log s = Some s'"
    using assms by (simp split: if_splits)
  then show ?thesis by (rule flow_select_log)
next
  case SelectErr
  then have "select_err s = Some s'"
    using assms by (simp split: if_splits)
  then show ?thesis by (rule flow_select_err)
qed

lemma flow_run:
  assumes "run client fl sched s = Some s'"
  shows "flow client fl s' = flow client fl s"
  using assms
proof (induction sched arbitrary: s)
  case Nil
  then show ?case by simp
next
  case (Cons a sched)
  from Cons.prems obtain s1 where s1: "step client fl a s = Some s1"
    and r: "run client fl sched s1 = Some s'"
    by (auto simp del: step.simps split: option.splits)
  show ?case
    using Cons.IH [OF r] flow_step [OF s1] by simp
qed

lemma consistent_entry: "consistent (retrieveLogs_entry st)"
  by (simp add: consistent_def retrieveLogs_entry_def)

lemma consistent_main:
  assumes "consistent s" and "main_step client fl (main s) s = Some s'"
  shows "consistent s'"
proof (cases "main s")
  case MStart
  then show ?thesis
    using assms by (auto simp: consistent_def split: if_splits sum.splits)
next
  case (MSpawnPods ps)
  then show ?thesis
    using assms by (cases ps) (auto simp: consistent_def)
next
  case MSpawnConsumer
  then show ?thesis
    using assms by (cases "closer s") (auto simp: consistent_def)
next
  case MWait
  then show ?thesis
    using assms by (cases "closer s") (auto simp: consistent_def split: if_splits)
next
  case (MReturned r)
  then show ?thesis
    using assms by simp
qed


lemma consistent_tasks_live:
  assumes "consistent s" and "tasks s \<noteq> []"
  shows "\<not> logClosed s \<and> \<not> errClosed s \<and> 0 < wg s \<and>
         (closer s = CNotStarted \<or> closer s = CWait) \<and> main s \<noteq> MStart \<and>
         main s \<noteq> MReturned None \<and> (\<forall>e. main s \<noteq> MReturned (Some e)) \<and> consumer s \<noteq> KDone"
proof -
  have c: "closer s = CNotStarted \<or> closer s = CWait" and l: "\<not> logClosed s" "\<not> errClosed s"
    using assms by (cases "closer s"; simp add: consistent_def)+
  have k: "consumer s \<noteq> KDone"
    using assms l by (cases "consumer s") (simp_all add: consistent_def)
  have m: "main s \<noteq> MStart \<and> main s \<noteq> MReturned None \<and> (\<forall>e. main s \<noteq> MReturned (Some e))"
    using assms k by (cases "(main s, closer s, consumer s, tasks s)" rule: pcs_ok.cases)
      (auto simp: consistent_def)
  show ?thesis
    using c l k m assms by (simp add: consistent_def)
qed

lemma consistent_tasks_change:
  assumes "consistent s" and "tasks s \<noteq> []"
  shows "consistent (s\<lparr>tasks := ts, wg := length ts\<rparr>)"
proof -
  note live = consistent_tasks_live [OF assms]
  have p: "pcs_ok (main s) (closer s) (consumer s) ts"
    using assms live
    by (cases "(main s, closer s, consumer s, tasks s)" rule: pcs_ok.cases)
       (auto simp: consistent_def)
  have c: "closer_ok (closer s) (logClosed s) (errClosed s) ts"
    using live by auto
  show ?thesis
    using assms p c by (simp add: consistent_def)
qed


lemma consistent_wg_Done:
  assumes "consistent s" and "i < length (tasks s)"
  shows "consistent (wg_Done i s)"
proof -
  define ts where "ts = take i (tasks s) @ drop (Suc i) (tasks s)"
  have ne: "tasks s \<noteq> []" using assms(2) by auto
  have w: "wg s = length (tasks s)" "wg s \<noteq> 0"
    using assms ne by (auto simp: consistent_def)
  have "length ts = wg s - 1"
    using w assms(2) by (simp add: ts_def)
  then have "wg_Done i s = s\<lparr>tasks := ts, wg := length ts\<rparr>"
    using w by (simp add: wg_Done_def ts_def)
  then show ?thesis
    using consistent_tasks_change [OF assms(1) ne, of ts] by simp
qed

lemma consistent_set_task:
  assumes "consistent s" and "i < length (tasks s)"
  shows "consistent (s\<lparr>tasks := (tasks s)[i := u]\<rparr>)"
proof -
  define ts where "ts = (tasks s)[i := u]"
  have ne: "tasks s \<noteq> []" using assms(2) by auto
  have w: "wg s = length (tasks s)"
    using assms by (auto simp: consistent_def)
  have "length ts = wg s"
    using w by (simp add: ts_def)
  then have "s\<lparr>tasks := ts\<rparr> = s\<lparr>tasks := ts, wg := length ts\<rparr>"
    by simp
  then show ?thesis
    using consistent_tasks_change [OF assms(1) ne, of ts] by (simp add: ts_def)
qed

lemma consistent_spawn_task:
  assumes "consistent s" and "i < length (tasks s)"
  shows "consistent (s\<lparr>wg := wg s + 1, tasks := (tasks s)[i := u] @ [v]\<rparr>)"
proof -
  define ts where "ts = (tasks s)[i := u] @ [v]"
  have ne: "tasks s \<noteq> []" using assms(2) by auto
  have w: "wg s = length (tasks s)"
    using assms by (auto simp: consistent_def)
  have "length ts = wg s + 1"
    using w by (simp add: ts_def)
  then have "s\<lparr>wg := wg s + 1, tasks := ts\<rparr> = s\<lparr>tasks := ts, wg := length ts\<rparr>"
    by simp
  then show ?thesis
    using consistent_tasks_change [OF assms(1) ne, of ts] by (simp add: ts_def)
qed

lemma consistent_calls: "consistent (s\<lparr>calls := cs\<rparr>) = consistent s"
  by (simp add: consistent_def)

lemma consistent_task:
  assumes "consistent s" and "i < length (tasks s)"
    and "task_step client fl i (tasks s ! i) s = Some s'"
  shows "consistent s'"
proof -
  have ne: "tasks s \<noteq> []" using assms(2) by auto
  note live = consistent_tasks_live [OF assms(1) ne]
  note a = consistent_set_task [OF assms(1,2)] consistent_wg_Done [OF assms(1,2)]
    consistent_spawn_task [OF assms(1,2)]
  show ?thesis
  proof (cases "tasks s ! i")
    case (PodStart p)
    then show ?thesis
      using assms(3) a(1)
      by (auto simp: consistent_calls split: if_splits sum.splits)
  next
    case (PodSpawn p cs)
    then show ?thesis
      using assms(3) a by (cases cs) auto
  next
    case (CtrStart p c)
    then show ?thesis
      using assms(3) a(1)
      by (auto simp: consistent_calls split: if_splits sum.splits)
  next
    case (SendLogs ls)
    have "consistent (s\<lparr>logBuf := b, tasks := (tasks s)[i := u]\<rparr>)" for b u
      using a(1) [of u] live by (cases "consumer s") (auto simp: consistent_def)
    then show ?thesis
      using assms(3) a live SendLogs by (cases ls) (auto split: if_splits)
  next
    case (SendErr e)
    have "consistent (s\<lparr>errBuf := b, tasks := (tasks s)[i := u]\<rparr>)" for b u
      using a(1) [of u] by (auto simp: consistent_def)
    then show ?thesis
      using assms(3) a live SendErr by (auto split: if_splits)
  next
    case Exiting
    then show ?thesis
      using assms(3) a by auto
  qed
qed

lemma consistent_closer:
  assumes "consistent s" and "closer_step (closer s) s = Some s'"
  shows "consistent s'"
proof (cases "closer s")
  case CWait
  then show ?thesis
    using assms
    by (cases "(main s, closer s, consumer s, tasks s)" rule: pcs_ok.cases;
        cases "consumer s")
       (auto simp: consistent_def split: if_splits)
next
  case CCloseLog
  then show ?thesis
    using assms
    by (cases "(main s, closer s, consumer s, tasks s)" rule: pcs_ok.cases;
        cases "consumer s")
       (auto simp: consistent_def split: if_splits)
next
  case CCloseErr
  then show ?thesis
    using assms
    by (cases "(main s, closer s, consumer s, tasks s)" rule: pcs_ok.cases;
        cases "consumer s")
       (auto simp: consistent_def split: if_splits)
qed (use assms in auto)

lemma consistent_select_log:
  assumes "consistent s" and "select_log s = Some s'"
  shows "consistent s'"
proof -
  have k: "consumer s = KSelect"
    using assms(2) by (auto simp: select_log_def split: if_splits)
  have m: "pcs_ok (main s) (closer s) KDone (tasks s)" if "logClosed s"
    using assms(1) k that
    by (cases "(main s, closer s, consumer s, tasks s)" rule: pcs_ok.cases)
       (auto simp: consistent_def)
  show ?thesis
    using assms k m
    by (auto simp: select_log_def consistent_def split: if_splits list.splits)
qed

lemma consistent_select_err:
  assumes "consistent s" and "select_err s = Some s'"
  shows "consistent s'"
  using assms
  by (auto simp: select_err_def consistent_def split: if_splits list.splits)

lemma consistent_step:
  assumes "consistent s" and "step client fl a s = Some s'"
  shows "consistent s'"
proof (cases a)
  case RunMain
  then have "main_step client fl (main s) s = Some s'"
    using assms(2) by (simp split: if_splits)
  then show ?thesis by (rule consistent_main [OF assms(1)])
next
  case (RunTask i)
  then have "i < length (tasks s)" "task_step client fl i (tasks s ! i) s = Some s'"
    using assms(2) by (simp_all split: if_splits)
  then show ?thesis by (rule consistent_task [OF assms(1)])
next
  case RunCloser
  then have "closer_step (closer s) s = Some s'"
    using assms(2) by (simp split: if_splits)
  then show ?thesis by (rule consistent_closer [OF assms(1)])
next
  case SelectLog
  then have "select_log s = Some s'"
    using assms(2) by (simp split: if_splits)
  then show ?thesis by (rule consistent_select_log [OF assms(1)])
next
  case SelectErr
  then have "select_err s = Some s'"
    using assms(2) by (simp split: if_splits)
  then show ?thesis by (rule consistent_select_err [OF assms(1)])
qed

lemma consistent_run:
  assumes "run client fl sched s = Some s'" and "consistent s"
  shows "consistent s'"
  using assms
proof (induction sched arbitrary: s)
  case Nil
  then show ?case by simp
next
  case (Cons a sched)
  from Cons.prems(1) obtain s1 where s1: "step client fl a s = Some s1"
    and r: "run client fl sched s1 = Some s'"
    by (auto simp del: step.simps split: option.splits)
  show ?case
    using Cons.IH [OF r consistent_step [OF Cons.prems(2) s1]] .
qed

lemma returned_nil_state:
  assumes "consistent s" and "main s = MReturned None"
  shows "tasks s = [] \<and> wg s = 0 \<and> logBuf s = [] \<and> logClosed s \<and> consumer s = KDone \<and>
         \<not> panicked s"
proof -
  have k: "consumer s = KDone"
    using assms by (simp add: consistent_def)
  then have l: "logClosed s" "logBuf s = []"
    using assms by (simp_all add: consistent_def)
  then have "tasks s = []"
    using assms by (cases "closer s") (simp_all add: consistent_def)
  then show ?thesis
    using k l assms by (simp add: consistent_def)
qed

lemma returned_nil_store:
  assumes "run client fl sched (retrieveLogs_entry st) = Some s" and "main s = MReturned None"
  shows "mset (GetLogs (logStore s)) = mset (GetLogs st) + mset (all_logs client fl)"
proof -
  have c: "consistent s"
    using consistent_run [OF assms(1) consistent_entry] .
  have "flow client fl s = flow client fl (retrieveLogs_entry st)"
    using flow_run [OF assms(1)] .
  moreover have "flow client fl (retrieveLogs_entry st) = mset (GetLogs st) + mset (all_logs client fl)"
    by (simp add: flow_def retrieveLogs_entry_def GetLogs_def)
  moreover have "flow client fl s = mset (GetLogs (logStore s))"
    using returned_nil_state [OF c assms(2)] assms(2) by (simp add: flow_def GetLogs_def)
  ultimately show ?thesis by simp
qed

lemma fatal_ok_step:
  assumes "fatal_ok client fl s" and "step client fl a s = Some s'"
  shows "fatal_ok client fl s'"
proof (cases a)
  case RunMain
  then have m: "main_step client fl (main s) s = Some s'"
    using assms(2) by (simp split: if_splits)
  show ?thesis
  proof (cases "main s")
    case (MSpawnPods ps)
    then show ?thesis using m by (cases ps) (auto simp: fatal_ok_def)
  qed (use m in \<open>auto simp: fatal_ok_def split: if_splits sum.splits\<close>)
next
  case (RunTask i)
  then have i: "i < length (tasks s)" and t: "task_step client fl i (tasks s ! i) s = Some s'"
    using assms(2) by (simp_all split: if_splits)
  have "main s' = main s"
    using t
    by (cases "(client, fl, i, tasks s ! i, s)" rule: task_step.cases)
       (auto simp: wg_Done_def split: if_splits sum.splits)
  then show ?thesis using assms(1) by (simp add: fatal_ok_def)
next
  case RunCloser
  then have "closer_step (closer s) s = Some s'"
    using assms(2) by (simp split: if_splits)
  then have "main s' = main s"
    by (cases "closer s") (auto split: if_splits)
  then show ?thesis using assms(1) by (simp add: fatal_ok_def)
next
  case SelectLog
  then have "select_log s = Some s'"
    using assms(2) by (simp split: if_splits)
  then have "main s' = main s"
    by (auto simp: select_log_def split: if_splits list.splits)
  then show ?thesis using assms(1) by (simp add: fatal_ok_def)
next
  case SelectErr
  then have "select_err s = Some s'"
    using assms(2) by (simp split: if_splits)
  then have "main s' = main s"
    by (auto simp: select_err_def split: if_splits list.splits)
  then show ?thesis using assms(1) by (simp add: fatal_ok_def)
qed

lemma fatal_ok_run:
  assumes "run client fl sched s = Some s'" and "fatal_ok client fl s"
  shows "fatal_ok client fl s'"
  using assms
proof (induction sched arbitrary: s)
  case Nil
  then show ?case by simp
next
  case (Cons a sched)
  from Cons.prems(1) obtain s1 where s1: "step client fl a s = Some s1"
    and r: "run client fl sched s1 = Some s'"
    by (auto simp del: step.simps split: option.splits)
  show ?case
    using Cons.IH [OF r fatal_ok_step [OF Cons.prems(2) s1]] .
qed

lemma entry_only_main:
  assumes "step client fl a (retrieveLogs_entry st) = Some s1"
  shows "a = RunMain"
  using assms
  by (cases a) (auto simp: retrieveLogs_entry_def select_log_def select_err_def)

lemma failed_no_step:
  assumes "main s = MReturned (Some e)" and "consistent s"
  shows "step client fl a s = None"
proof -
  have "closer s = CNotStarted" "consumer s = KNotStarted" "tasks s = []"
    using assms by (simp_all add: consistent_def)
  then show ?thesis
    using assms(1) by (cases a) (auto simp: select_log_def select_err_def)
qed

text \<open>
  Claim C8. If the pod listing fails, the calling goroutine's first step
  returns the error "failed to list pods: ..." and the run has no other step:
  no goroutine was started (no pod or container goroutine, no closer, no
  consumer), the only request made to the cluster is the pod listing, and the
  store, the channels and the output are as they were on entry. Conversely the
  pod listing is the only failure that makes the operation return an error.
\<close>

theorem pod_listing_fatal:
  "(pod fl = [] \<and> ListPods client (namespace fl) = Inl err \<longrightarrow>
      run client fl [RunMain] (retrieveLogs_entry st) =
        Some ((retrieveLogs_entry st)
                \<lparr>main := MReturned (Some (''failed to list pods: '' @ err)),
                 calls := [CallListPods (namespace fl)]\<rparr>) \<and>
      (\<forall>sched s. run client fl sched (retrieveLogs_entry st) = Some s \<longrightarrow>
         (sched = [] \<or> sched = [RunMain]) \<and> tasks s = [] \<and> wg s = 0 \<and>
         logStore s = st \<and> logBuf s = [] \<and> errBuf s = [] \<and> printed s = [] \<and>
         closer s = CNotStarted \<and> consumer s = KNotStarted \<and>
         (calls s = [] \<or> calls s = [CallListPods (namespace fl)]))) \<and>
   (\<forall>sched s e. run client fl sched (retrieveLogs_entry st) = Some s \<and>
        main s = MReturned (Some e) \<longrightarrow>
      pod fl = [] \<and>
      (\<exists>err. ListPods client (namespace fl) = Inl err \<and> e = ''failed to list pods: '' @ err))"
proof (intro conjI impI allI)
  assume a: "pod fl = [] \<and> ListPods client (namespace fl) = Inl err"
  let ?f = "(retrieveLogs_entry st)
                \<lparr>main := MReturned (Some (''failed to list pods: '' @ err)),
                 calls := [CallListPods (namespace fl)]\<rparr>"
  show r1: "run client fl [RunMain] (retrieveLogs_entry st) = Some ?f"
    using a by (simp add: retrieveLogs_entry_def)
  have s1: "step client fl RunMain (retrieveLogs_entry st) = Some ?f"
    using a by (simp add: retrieveLogs_entry_def)
  have cf: "consistent ?f"
    by (simp add: consistent_def retrieveLogs_entry_def)
  have only: "(sched = [] \<and> s = retrieveLogs_entry st) \<or> (sched = [RunMain] \<and> s = ?f)"
    if r: "run client fl sched (retrieveLogs_entry st) = Some s" for sched s
  proof (cases sched)
    case Nil
    then show ?thesis using r by simp
  next
    case (Cons b rest)
    from r Cons obtain s1' where b: "step client fl b (retrieveLogs_entry st) = Some s1'"
      and r': "run client fl rest s1' = Some s"
      by (auto simp del: step.simps split: option.splits)
    have bm: "b = RunMain" using entry_only_main [OF b] .
    then have e: "s1' = ?f" using b s1 by simp
    show ?thesis
    proof (cases rest)
      case Nil
      then show ?thesis using r' e bm Cons by simp
    next
      case (Cons c rest')
      have "step client fl c ?f = None"
        by (rule failed_no_step [OF _ cf]) simp
      then show ?thesis using r' e Cons by (simp del: step.simps)
    qed
  qed
  fix sched s
  assume r: "run client fl sched (retrieveLogs_entry st) = Some s"
  note o = only [OF r]
  show "sched = [] \<or> sched = [RunMain]" using o by auto
  show "tasks s = []" using o by (auto simp: retrieveLogs_entry_def)
  show "wg s = 0" using o by (auto simp: retrieveLogs_entry_def)
  show "logStore s = st" using o by (auto simp: retrieveLogs_entry_def)
  show "logBuf s = []" using o by (auto simp: retrieveLogs_entry_def)
  show "errBuf s = []" using o by (auto simp: retrieveLogs_entry_def)
  show "printed s = []" using o by (auto simp: retrieveLogs_entry_def)
  show "closer s = CNotStarted" using o by (auto simp: retrieveLogs_entry_def)
  show "consumer s = KNotStarted" using o by (auto simp: retrieveLogs_entry_def)
  show "calls s = [] \<or> calls s = [CallListPods (namespace fl)]"
    using o by (auto simp: retrieveLogs_entry_def)
next
  fix sched s e
  assume a: "run client fl sched (retrieveLogs_entry st) = Some s \<and> main s = MReturned (Some e)"
  have "fatal_ok client fl (retrieveLogs_entry st)"
    by (simp add: fatal_ok_def retrieveLogs_entry_def)
  then have f: "fatal_ok client fl s"
    using fatal_ok_run a by blast
  then show "pod fl = []"
    using a by (simp add: fatal_ok_def)
  show "\<exists>err. ListPods client (namespace fl) = Inl err \<and> e = ''failed to list pods: '' @ err"
    using a f by (auto simp: fatal_ok_def split: sum.splits)
qed

theorem pod_listing_fatal_witness:
  "pod demo_flags = [] \<and> ListPods failing_cluster (namespace demo_flags) = Inl ''forbidden'' \<and>
   run failing_cluster demo_flags [RunMain] (retrieveLogs_entry NewLogStorage) =
     Some ((retrieveLogs_entry NewLogStorage)
             \<lparr>main := MReturned (Some ''failed to list pods: forbidden''),
              calls := [CallListPods ''n'']\<rparr>) \<and>
   run failing_cluster demo_flags [RunMain, RunMain] (retrieveLogs_entry NewLogStorage) = None \<and>
   run failing_cluster demo_flags [RunMain, RunTask 0] (retrieveLogs_entry NewLogStorage) = None"
proof -
  have h: "pod demo_flags = [] \<and>
           ListPods failing_cluster (namespace demo_flags) = Inl ''forbidden''"
    by (simp add: demo_flags_def failing_cluster_def ListPods_def)
  note f = pod_listing_fatal [of demo_flags failing_cluster "''forbidden''" NewLogStorage]
  have r: "run failing_cluster demo_flags [RunMain] (retrieveLogs_entry NewLogStorage) =
     Some ((retrieveLogs_entry NewLogStorage)
             \<lparr>main := MReturned (Some ''failed to list pods: forbidden''),
              calls := [CallListPods ''n'']\<rparr>)"
    using f h by (simp add: demo_flags_def)
  have n: "run failing_cluster demo_flags sched (retrieveLogs_entry NewLogStorage) = None"
    if "sched \<noteq> []" "sched \<noteq> [RunMain]" for sched
    using f h that
    by (cases "run failing_cluster demo_flags sched (retrieveLogs_entry NewLogStorage)") auto
  show ?thesis
    using h r n [of "[RunMain, RunMain]"] n [of "[RunMain, RunTask 0]"] by simp
qed

lemma progress_main:
  assumes "consistent s" and "main s \<noteq> MWait" and "\<forall>r. main s \<noteq> MReturned r"
  shows "\<exists>s'. main_step client fl (main s) s = Some s' \<and> work client fl s' < work client fl s"
proof (cases "main s")
  case MStart
  then show ?thesis
    by (auto simp: work_def resolve_pods_def split: sum.splits)
next
  case (MSpawnPods ps)
  then have "closer s = CNotStarted"
    using assms(1) by (simp add: consistent_def)
  then show ?thesis
    using MSpawnPods by (cases ps) (auto simp: work_def)
next
  case MSpawnConsumer
  then have "consumer s = KNotStarted"
    using assms(1) by (simp add: consistent_def)
  then show ?thesis
    using MSpawnConsumer by (auto simp: work_def)
qed (use assms in auto)

lemma work_wg_Done:
  assumes "tasks s = t # ts" and "wg s \<noteq> 0" and "0 < task_work client fl t"
  shows "work client fl (wg_Done 0 s) < work client fl s"
  using assms by (simp add: work_def wg_Done_def)

lemma progress_task:
  assumes t: "tasks s = t # ts" and w: "wg s \<noteq> 0"
    and b: "logBuf s = []" "errBuf s = []" and c: "\<not> logClosed s" "\<not> errClosed s"
  shows "\<exists>s'. task_step client fl 0 t s = Some s' \<and> work client fl s' < work client fl s"
proof (cases t)
  case (PodStart p)
  then show ?thesis
    using t by (auto simp: work_def pod_work_def pod_containers_def split: sum.splits)
next
  case (PodSpawn p cs)
  show ?thesis
  proof (cases cs)
    case Nil
    then show ?thesis
      using PodSpawn work_wg_Done [OF t w, of client fl] by (simp add: spawn_work_def)
  next
    case (Cons c rest)
    then show ?thesis
      using PodSpawn t by (simp add: work_def spawn_work_def)
  qed
next
  case (CtrStart p c)
  then show ?thesis
    using t by (auto simp: work_def ctr_work_def split: sum.splits)
next
  case (SendLogs ls)
  show ?thesis
  proof (cases ls)
    case Nil
    then show ?thesis
      using SendLogs work_wg_Done [OF t w, of client fl] by simp
  next
    case (Cons l rest)
    then show ?thesis
      using SendLogs t b c by (simp add: work_def)
  qed
next
  case (SendErr e)
  then show ?thesis
    using t b c by (simp add: work_def)
next
  case Exiting
  then show ?thesis
    using work_wg_Done [OF t w, of client fl] by simp
qed

lemma progress_step:
  assumes c: "consistent s" and m: "\<forall>r. main s \<noteq> MReturned r"
  shows "\<exists>a s'. step client fl a s = Some s' \<and> work client fl s' < work client fl s"
proof -
  have np: "\<not> panicked s" using c by (simp add: consistent_def)
  show ?thesis
  proof (cases "main s = MWait")
    case False
    then obtain s' where "main_step client fl (main s) s = Some s'"
      and "work client fl s' < work client fl s"
      using progress_main [OF c False m] by blast
    then have "step client fl RunMain s = Some s' \<and> work client fl s' < work client fl s"
      using np by simp
    then show ?thesis by blast
  next
    case True
    then have k: "consumer s \<noteq> KNotStarted" and cl: "closer s \<noteq> CNotStarted"
      using c by (simp_all add: consistent_def)
    show ?thesis
    proof (cases "consumer s = KDone")
      case True
      then have "step client fl RunMain s = Some (s\<lparr>main := MReturned None\<rparr>)"
        using np \<open>main s = MWait\<close> by simp
      moreover have "work client fl (s\<lparr>main := MReturned None\<rparr>) < work client fl s"
        using \<open>main s = MWait\<close> by (simp add: work_def)
      ultimately show ?thesis by blast
    next
      case False
      then have ks: "consumer s = KSelect"
        using k by (cases "consumer s") simp_all
      show ?thesis
      proof (cases "logBuf s")
        case (Cons l rest)
        then have "step client fl SelectLog s =
            Some (s\<lparr>logBuf := rest, logStore := AddLog (logStore s) l,
                    totalLogs := totalLogs s + 1\<rparr>)"
          using np ks by (simp add: select_log_def)
        moreover have "work client fl (s\<lparr>logBuf := rest, logStore := AddLog (logStore s) l,
                    totalLogs := totalLogs s + 1\<rparr>) < work client fl s"
          using Cons by (simp add: work_def)
        ultimately show ?thesis by blast
      next
        case lb: Nil
        show ?thesis
        proof (cases "errBuf s")
          case (Cons e rest)
          then have "step client fl SelectErr s =
              Some (s\<lparr>errBuf := rest, printed := printed s @ [''Error: '' @ e]\<rparr>)"
            using np ks by (simp add: select_err_def)
          moreover have "work client fl (s\<lparr>errBuf := rest,
              printed := printed s @ [''Error: '' @ e]\<rparr>) < work client fl s"
            using Cons by (simp add: work_def)
          ultimately show ?thesis by blast
        next
          case eb: Nil
          show ?thesis
          proof (cases "tasks s")
            case (Cons t ts)
            then have ne: "tasks s \<noteq> []" by simp
            note live = consistent_tasks_live [OF c ne]
            obtain s' where "task_step client fl 0 t s = Some s'"
              and lt: "work client fl s' < work client fl s"
              using progress_task [OF Cons _ lb eb, of client fl] live by auto
            then have "step client fl (RunTask 0) s = Some s'"
              using np Cons by simp
            then show ?thesis using lt by blast
          next
            case ts: Nil
            then have w: "wg s = 0" using c by (simp add: consistent_def)
            show ?thesis
            proof (cases "closer s")
              case CNotStarted
              then show ?thesis using cl by simp
            next
              case CWait
              then have "step client fl RunCloser s = Some (s\<lparr>closer := CCloseLog\<rparr>)"
                using np w by simp
              moreover have "work client fl (s\<lparr>closer := CCloseLog\<rparr>) < work client fl s"
                using CWait by (simp add: work_def)
              ultimately show ?thesis by blast
            next
              case CCloseLog
              then have "step client fl RunCloser s =
                  Some (s\<lparr>logClosed := True, closer := CCloseErr\<rparr>)"
                using np by simp
              moreover have "work client fl (s\<lparr>logClosed := True, closer := CCloseErr\<rparr>)
                  < work client fl s"
                using CCloseLog by (simp add: work_def)
              ultimately show ?thesis by blast
            next
              case CCloseErr
              then have "step client fl RunCloser s =
                  Some (s\<lparr>errClosed := True, closer := CDone\<rparr>)"
                using np by simp
              moreover have "work client fl (s\<lparr>errClosed := True, closer := CDone\<rparr>)
                  < work client fl s"
                using CCloseErr by (simp add: work_def)
              ultimately show ?thesis by blast
            next
              case CDone
              then have "logClosed s" using c by (simp add: consistent_def)
              then have "step client fl SelectLog s = Some (s\<lparr>consumer := KDone\<rparr>)"
                using np ks lb by (simp add: select_log_def)
              moreover have "work client fl (s\<lparr>consumer := KDone\<rparr>) < work client fl s"
                using ks by (simp add: work_def)
              ultimately show ?thesis by blast
            qed
          qed
        qed
      qed
    qed
  qed
qed

lemma run_append:
  "run client fl (as @ bs) s =
     (case run client fl as s of None \<Rightarrow> None | Some s1 \<Rightarrow> run client fl bs s1)"
  by (induction as arbitrary: s) (simp_all del: step.simps split: option.splits)

lemma can_return:
  assumes "consistent s"
  shows "\<exists>sched s' r. run client fl sched s = Some s' \<and> main s' = MReturned r"
  using assms
proof (induction "work client fl s" arbitrary: s rule: less_induct)
  case less
  show ?case
  proof (cases "\<exists>r. main s = MReturned r")
    case True
    then obtain r where "main s = MReturned r" by blast
    then have "run client fl [] s = Some s \<and> main s = MReturned r" by simp
    then show ?thesis by blast
  next
    case False
    then obtain a s1 where a: "step client fl a s = Some s1"
      and lt: "work client fl s1 < work client fl s"
      using progress_step [OF less.prems, of client fl] by blast
    have "consistent s1"
      using consistent_step [OF less.prems a] .
    then obtain sched s' r where "run client fl sched s1 = Some s'" "main s' = MReturned r"
      using less.hyps [OF lt] by blast
    then have "run client fl (a # sched) s = Some s' \<and> main s' = MReturned r"
      using a by (simp del: step.simps)
    then show ?thesis by blast
  qed
qed

lemma errflow_main:
  assumes "main_step client fl (main s) s = Some s'"
  shows "errflow client fl s' = errflow client fl s"
  using assms
  by (cases "(client, fl, main s, s)" rule: main_step.cases)
     (auto simp: errflow_def all_errs_def resolve_pods_def split: if_splits sum.splits)

lemma errflow_wg_Done:
  assumes "i < length (tasks s)" and "task_errs client fl (tasks s ! i) = []"
  shows "errflow client fl (wg_Done i s) = errflow client fl s"
proof -
  have "(\<Sum>t\<leftarrow>take i (tasks s) @ drop (Suc i) (tasks s). mset (map red (task_errs client fl t))) =
        (\<Sum>t\<leftarrow>tasks s. mset (map red (task_errs client fl t)))"
    using sum_list_del [OF assms(1), of "\<lambda>t. mset (map red (task_errs client fl t))"] assms(2)
    by simp
  then show ?thesis
    by (simp add: errflow_def wg_Done_def)
qed

lemma errflow_set_task:
  assumes "i < length (tasks s)"
    and "mset (map red (task_errs client fl u)) + extra =
         mset (map red (task_errs client fl (tasks s ! i)))"
  shows "(\<Sum>t\<leftarrow>(tasks s)[i := u]. mset (map red (task_errs client fl t))) + extra =
         (\<Sum>t\<leftarrow>tasks s. mset (map red (task_errs client fl t)))"
proof -
  have "(\<Sum>t\<leftarrow>(tasks s)[i := u]. mset (map red (task_errs client fl t))) + extra +
          mset (map red (task_errs client fl (tasks s ! i))) =
        (\<Sum>t\<leftarrow>tasks s. mset (map red (task_errs client fl t))) +
          mset (map red (task_errs client fl (tasks s ! i)))"
    using sum_list_upd [OF assms(1), of "\<lambda>t. mset (map red (task_errs client fl t))" u] assms(2)
    by (simp add: ac_simps)
  then show ?thesis by simp
qed

lemma errflow_task:
  assumes "i < length (tasks s)" and "task_step client fl i (tasks s ! i) s = Some s'"
  shows "errflow client fl s' = errflow client fl s"
proof (cases "tasks s ! i")
  case (PodStart p)
  have "(\<Sum>t\<leftarrow>(tasks s)[i := u]. mset (map red (task_errs client fl t))) =
        (\<Sum>t\<leftarrow>tasks s. mset (map red (task_errs client fl t)))"
    if "task_errs client fl u = pod_errs client fl p" for u
    using errflow_set_task [OF assms(1), of client fl u "{#}"] that PodStart by simp
  then show ?thesis
    using assms(2) PodStart
    by (auto simp: errflow_def pod_errs_def pod_containers_def ctr_errs_def
        split: if_splits sum.splits)
next
  case (PodSpawn p cs)
  show ?thesis
  proof (cases cs)
    case Nil
    then show ?thesis
      using assms PodSpawn errflow_wg_Done [OF assms(1), of client fl] by simp
  next
    case (Cons c rest)
    have "(\<Sum>t\<leftarrow>(tasks s)[i := PodSpawn p rest]. mset (map red (task_errs client fl t))) +
            mset (map red (ctr_errs client fl p c)) =
          (\<Sum>t\<leftarrow>tasks s. mset (map red (task_errs client fl t)))"
      using errflow_set_task [OF assms(1), of client fl "PodSpawn p rest"
          "mset (map red (ctr_errs client fl p c))"] PodSpawn Cons by simp
    then show ?thesis
      using assms(2) PodSpawn Cons by (auto simp: errflow_def ac_simps)
  qed
next
  case (CtrStart p c)
  have "(\<Sum>t\<leftarrow>(tasks s)[i := u]. mset (map red (task_errs client fl t))) =
        (\<Sum>t\<leftarrow>tasks s. mset (map red (task_errs client fl t)))"
    if "task_errs client fl u = ctr_errs client fl p c" for u
    using errflow_set_task [OF assms(1), of client fl u "{#}"] that CtrStart by simp
  then show ?thesis
    using assms(2) CtrStart
    by (auto simp: errflow_def ctr_errs_def split: if_splits sum.splits)
next
  case (SendLogs ls)
  show ?thesis
  proof (cases ls)
    case Nil
    then show ?thesis
      using assms SendLogs errflow_wg_Done [OF assms(1), of client fl] by simp
  next
    case (Cons l rest)
    have "(\<Sum>t\<leftarrow>(tasks s)[i := SendLogs rest]. mset (map red (task_errs client fl t))) =
          (\<Sum>t\<leftarrow>tasks s. mset (map red (task_errs client fl t)))"
      using errflow_set_task [OF assms(1), of client fl "SendLogs rest" "{#}"] SendLogs Cons
      by simp
    then show ?thesis
      using assms(2) SendLogs Cons by (auto simp: errflow_def split: if_splits)
  qed
next
  case (SendErr e)
  have "(\<Sum>t\<leftarrow>(tasks s)[i := Exiting]. mset (map red (task_errs client fl t))) + {#red e#} =
        (\<Sum>t\<leftarrow>tasks s. mset (map red (task_errs client fl t)))"
    using errflow_set_task [OF assms(1), of client fl Exiting "{#red e#}"] SendErr by simp
  then show ?thesis
    using assms(2) SendErr by (auto simp: errflow_def ac_simps split: if_splits)
next
  case Exiting
  then show ?thesis
    using assms errflow_wg_Done [OF assms(1), of client fl] by simp
qed

lemma errflow_closer:
  assumes "closer_step (closer s) s = Some s'"
  shows "errflow client fl s' = errflow client fl s"
  using assms
  by (cases "closer s") (auto simp: errflow_def split: if_splits)

lemma errflow_select_log:
  assumes "select_log s = Some s'"
  shows "errflow client fl s' = errflow client fl s"
  using assms
  by (auto simp: select_log_def errflow_def split: if_splits list.splits)

lemma errflow_select_err:
  assumes "select_err s = Some s'"
  shows "errflow client fl s' = errflow client fl s"
  using assms
  by (auto simp: select_err_def errflow_def red_def split: if_splits list.splits)

lemma errflow_step:
  assumes "step client fl a s = Some s'"
  shows "errflow client fl s' = errflow client fl s"
proof (cases a)
  case RunMain
  then have "main_step client fl (main s) s = Some s'"
    using assms by (simp split: if_splits)
  then show ?thesis by (rule errflow_main)
next
  case (RunTask i)
  then have "i < length (tasks s)" "task_step client fl i (tasks s ! i) s = Some s'"
    using assms by (simp_all split: if_splits)
  then show ?thesis by (rule errflow_task)
next
  case RunCloser
  then have "closer_step (closer s) s = Some s'"
    using assms by (simp split: if_splits)
  then show ?thesis by (rule errflow_closer)
next
  case SelectLog
  then have "select_log s = Some s'"
    using assms by (simp split: if_splits)
  then show ?thesis by (rule errflow_select_log)
next
  case SelectErr
  then have "select_err s = Some s'"
    using assms by (simp split: if_splits)
  then show ?thesis by (rule errflow_select_err)
qed

lemma errflow_run:
  assumes "run client fl sched s = Some s'"
  shows "errflow client fl s' = errflow client fl s"
  using assms
proof (induction sched arbitrary: s)
  case Nil
  then show ?case by simp
next
  case (Cons a sched)
  from Cons.prems obtain s1 where s1: "step client fl a s = Some s1"
    and r: "run client fl sched s1 = Some s'"
    by (auto simp del: step.simps split: option.splits)
  show ?case
    using Cons.IH [OF r] errflow_step [OF s1] by simp
qed

text \<open>
  When the operation has returned nil, every error of the run has either been
  printed or is still in \<^verbatim>\<open>errorChan\<close>.
\<close>

lemma errors_accounted:
  assumes "run client fl sched (retrieveLogs_entry st) = Some s" and "main s = MReturned None"
  shows "mset (printed s) + mset (map red (errBuf s)) = mset (map red (all_errs client fl))"
proof -
  have c: "consistent s"
    using consistent_run [OF assms(1) consistent_entry] .
  have "errflow client fl s = errflow client fl (retrieveLogs_entry st)"
    using errflow_run [OF assms(1)] .
  moreover have "errflow client fl (retrieveLogs_entry st) = mset (map red (all_errs client fl))"
    by (simp add: errflow_def retrieveLogs_entry_def)
  moreover have "errflow client fl s = mset (printed s) + mset (map red (errBuf s))"
    using returned_nil_state [OF c assms(2)] assms(2) by (simp add: errflow_def)
  ultimately show ?thesis by simp
qed

lemma length_parse_lines:
  "length (parse_lines client ns p c i ls) = length (filter (\<lambda>l. l \<noteq> []) ls)"
  by (induction ls arbitrary: i) simp_all

lemma content_parse_lines:
  "map LogContent (parse_lines client ns p c i ls) = filter (\<lambda>l. l \<noteq> []) ls"
  by (induction ls arbitrary: i) simp_all

lemma stamp_parse_lines:
  "e \<in> set (parse_lines client ns p c i ls) \<Longrightarrow>
     Namespace e = ns \<and> PodName e = p \<and> Container e = c \<and> LogContent e \<noteq> []"
  by (induction ls arbitrary: i) (auto split: if_splits)

lemma length_concat_const:
  assumes "\<And>x. x \<in> set xs \<Longrightarrow> length (f x) = n"
  shows "length (concat (map f xs)) = length xs * n"
  using assms by (induction xs) simp_all

lemma all_logs_success:
  assumes ps: "resolve_pods client fl = Inr ps"
    and cs: "\<And>p. p \<in> set ps \<Longrightarrow> pod_containers client fl p = Inr (cs p)"
    and raw: "\<And>p c. p \<in> set ps \<Longrightarrow> c \<in> set (cs p) \<Longrightarrow>
                logs_stream client (namespace fl) p c = Bytes (raw p c)"
  shows "all_logs client fl =
           concat (map (\<lambda>p. concat (map (\<lambda>c.
             parse_lines client (namespace fl) p c 0 (Split_nl (raw p c))) (cs p))) ps)"
proof -
  have c: "ctr_logs client fl p c = parse_lines client (namespace fl) p c 0 (Split_nl (raw p c))"
    if "p \<in> set ps" "c \<in> set (cs p)" for p c
    using raw [OF that] by (simp add: ctr_logs_def RetrievePodLogs_def)
  have p: "pod_logs client fl p =
       concat (map (\<lambda>c. parse_lines client (namespace fl) p c 0 (Split_nl (raw p c))) (cs p))"
    if "p \<in> set ps" for p
    using cs [OF that] c [OF that] by (simp add: pod_logs_def cong: map_cong)
  show ?thesis
    using ps p by (simp add: all_logs_def cong: map_cong)
qed

text \<open>
  Claim C1. With K pods of M containers each, every listing and every fetch
  succeeding and every stream holding L non-empty lines: whatever the
  goroutines have done so far, the run can go on until the operation returns
  nil (nothing blocks for ever); and in every interleaving, once the operation
  has returned, it has returned nil, no pod or container goroutine is left
  (the WaitGroup counter is zero), nothing is left in \<^verbatim>\<open>logChan\<close>, the program
  has not panicked, and the store holds exactly K * M * L entries: the entries
  of the non-empty lines of all the streams, each once, each with its
  namespace, pod and container.
\<close>

theorem retrieval_complete:
  assumes ps: "resolve_pods client fl = Inr ps" and K: "length ps = K"
    and cs: "\<forall>p\<in>set ps. pod_containers client fl p = Inr (cs p) \<and> length (cs p) = M"
    and raw: "\<forall>p\<in>set ps. \<forall>c\<in>set (cs p).
                logs_stream client (namespace fl) p c = Bytes (raw p c) \<and>
                length (filter (\<lambda>l. l \<noteq> []) (Split_nl (raw p c))) = L"
    and run: "run client fl sched (retrieveLogs_entry NewLogStorage) = Some s"
  shows "(\<exists>more s'. run client fl (sched @ more) (retrieveLogs_entry NewLogStorage) = Some s' \<and>
            main s' = MReturned None) \<and>
         (\<forall>r. main s = MReturned r \<longrightarrow>
            r = None \<and> tasks s = [] \<and> wg s = 0 \<and> logBuf s = [] \<and> \<not> panicked s \<and>
            length (GetLogs (logStore s)) = K * M * L \<and>
            mset (GetLogs (logStore s)) =
              mset (concat (map (\<lambda>p. concat (map (\<lambda>c.
                parse_lines client (namespace fl) p c 0 (Split_nl (raw p c))) (cs p))) ps)) \<and>
            (\<forall>e\<in>set (GetLogs (logStore s)).
               Namespace e = namespace fl \<and> PodName e \<in> set ps \<and>
               Container e \<in> set (cs (PodName e)) \<and> LogContent e \<noteq> []))"
proof -
  let ?entries = "\<lambda>p c. parse_lines client (namespace fl) p c 0 (Split_nl (raw p c))"
  let ?all = "concat (map (\<lambda>p. concat (map (?entries p) (cs p))) ps)"
  have cs1: "pod_containers client fl p = Inr (cs p)" and cs2: "length (cs p) = M"
    if "p \<in> set ps" for p
    using cs that by blast+
  have raw1: "logs_stream client (namespace fl) p c = Bytes (raw p c)"
    and raw2: "length (filter (\<lambda>l. l \<noteq> []) (Split_nl (raw p c))) = L"
    if "p \<in> set ps" "c \<in> set (cs p)" for p c
    using raw that by blast+
  have c: "consistent s"
    using consistent_run [OF run consistent_entry] .
  have "fatal_ok client fl (retrieveLogs_entry NewLogStorage)"
    by (simp add: fatal_ok_def retrieveLogs_entry_def)
  then have f: "fatal_ok client fl s"
    using fatal_ok_run [OF run] by simp
  have lp: "pod fl = [] \<Longrightarrow> ListPods client (namespace fl) = Inr ps"
    using ps by (simp add: resolve_pods_def)
  have nil: "r = None" if "main s = MReturned r" for r
  proof (cases r)
    case (Some e)
    then show ?thesis
      using f that lp by (simp add: fatal_ok_def)
  qed simp
  have a: "all_logs client fl = ?all"
    by (rule all_logs_success [OF ps cs1 raw1])
  have lc: "length (?entries p c) = L" if "p \<in> set ps" "c \<in> set (cs p)" for p c
    using raw2 [OF that] by (simp add: length_parse_lines)
  have lq: "length (concat (map (?entries p) (cs p))) = M * L" if "p \<in> set ps" for p
    using length_concat_const [of "cs p" "?entries p" L, OF lc [OF that]] cs2 [OF that] by simp
  have "length ?all = length ps * (M * L)"
    by (rule length_concat_const [of ps "\<lambda>p. concat (map (?entries p) (cs p))" "M * L", OF lq])
  then have la: "length ?all = K * M * L"
    using K by simp
  have stamp: "Namespace e = namespace fl \<and> PodName e \<in> set ps \<and>
            Container e \<in> set (cs (PodName e)) \<and> LogContent e \<noteq> []"
    if e: "e \<in> set ?all" for e
  proof -
    obtain p where p: "p \<in> set ps" and "e \<in> set (concat (map (?entries p) (cs p)))"
      using e unfolding set_concat by auto
    then obtain c where c: "c \<in> set (cs p)" and "e \<in> set (?entries p c)"
      unfolding set_concat by auto
    then show ?thesis
      using stamp_parse_lines [of e client "namespace fl" p c 0 "Split_nl (raw p c)"] p c
      by simp
  qed
  have part2: "r = None \<and> tasks s = [] \<and> wg s = 0 \<and> logBuf s = [] \<and> \<not> panicked s \<and>
            length (GetLogs (logStore s)) = K * M * L \<and>
            mset (GetLogs (logStore s)) = mset ?all \<and>
            (\<forall>e\<in>set (GetLogs (logStore s)).
               Namespace e = namespace fl \<and> PodName e \<in> set ps \<and>
               Container e \<in> set (cs (PodName e)) \<and> LogContent e \<noteq> [])"
    if ret: "main s = MReturned r" for r
  proof -
    have r: "r = None" using nil [OF ret] .
    then have m: "main s = MReturned None" using ret by simp
    note st = returned_nil_state [OF c m]
    have "mset (GetLogs (logStore s)) = mset (GetLogs NewLogStorage) + mset (all_logs client fl)"
      by (rule returned_nil_store [OF run m])
    then have ms: "mset (GetLogs (logStore s)) = mset ?all"
      unfolding a by (simp add: GetLogs_def NewLogStorage_def)
    have "size (mset (GetLogs (logStore s))) = size (mset ?all)"
      using ms by (rule arg_cong)
    then have len: "length (GetLogs (logStore s)) = K * M * L"
      unfolding size_mset la .
    have "set_mset (mset (GetLogs (logStore s))) = set_mset (mset ?all)"
      using ms by (rule arg_cong)
    then have "set (GetLogs (logStore s)) = set ?all"
      unfolding set_mset_mset .
    then have "\<forall>e\<in>set (GetLogs (logStore s)).
               Namespace e = namespace fl \<and> PodName e \<in> set ps \<and>
               Container e \<in> set (cs (PodName e)) \<and> LogContent e \<noteq> []"
      using stamp by blast
    then show ?thesis
      using r st len ms by blast
  qed
  obtain more s' r where more: "run client fl more s = Some s'" and ret': "main s' = MReturned r"
    using can_return [OF c, of client fl] by blast
  have whole: "run client fl (sched @ more) (retrieveLogs_entry NewLogStorage) = Some s'"
    using run more by (simp add: run_append)
  have "fatal_ok client fl s'"
    using fatal_ok_run [OF more f] .
  then have "r = None"
    using ret' lp by (cases r) (simp_all add: fatal_ok_def)
  then have part1: "\<exists>more s'. run client fl (sched @ more) (retrieveLogs_entry NewLogStorage) = Some s' \<and>
            main s' = MReturned None"
    using whole ret' by blast
  show ?thesis
    using part1 part2 by blast
qed

lemma demo_run:
  "\<exists>s. run demo_cluster demo_flags demo_schedule (retrieveLogs_entry NewLogStorage) = Some s \<and>
       main s = MReturned None"
  by (simp add: demo_cluster_def demo_flags_def demo_schedule_def retrieveLogs_entry_def
    NewLogStorage_def ListPods_def ListContainers_def RetrievePodLogs_def wg_Done_def
    select_log_def AddLog_def numeral_eq_Suc)

text \<open>
  The run to completion of two pods with two containers of two lines each.
\<close>

theorem retrieval_complete_witness:
  "resolve_pods demo_cluster demo_flags = Inr [''p1'', ''p2''] \<and>
   pod_containers demo_cluster demo_flags ''p1'' = Inr [''c1'', ''c2''] \<and>
   pod_containers demo_cluster demo_flags ''p2'' = Inr [''c1'', ''c2''] \<and>
   logs_stream demo_cluster (namespace demo_flags) ''p1'' ''c1'' = Bytes ''a\<newline>b\<newline>'' \<and>
   logs_stream demo_cluster (namespace demo_flags) ''p2'' ''c2'' = Bytes ''a\<newline>b\<newline>'' \<and>
   length (filter (\<lambda>l. l \<noteq> []) (Split_nl ''a\<newline>b\<newline>'')) = 2 \<and>
   (case run demo_cluster demo_flags demo_schedule (retrieveLogs_entry NewLogStorage) of
      None \<Rightarrow> False
    | Some s \<Rightarrow>
        main s = MReturned None \<and> tasks s = [] \<and> wg s = 0 \<and> \<not> panicked s \<and>
        length (GetLogs (logStore s)) = 2 * 2 * 2)"
proof -
  obtain s where run: "run demo_cluster demo_flags demo_schedule (retrieveLogs_entry NewLogStorage) = Some s"
    and ret: "main s = MReturned None"
    using demo_run by blast
  have ps: "resolve_pods demo_cluster demo_flags = Inr [''p1'', ''p2'']"
    by (simp add: resolve_pods_def demo_cluster_def demo_flags_def ListPods_def)
  have K: "length [''p1'', ''p2''] = 2" by simp
  have cs: "\<forall>p\<in>set [''p1'', ''p2''].
      pod_containers demo_cluster demo_flags p = Inr ((\<lambda>p. [''c1'', ''c2'']) p) \<and>
      length ((\<lambda>p. [''c1'', ''c2'']) p) = 2"
    by (simp add: pod_containers_def demo_cluster_def demo_flags_def ListContainers_def)
  have sp: "length (filter (\<lambda>l. l \<noteq> []) (Split_nl ''a\<newline>b\<newline>'')) = 2"
    by simp
  have raw: "\<forall>p\<in>set [''p1'', ''p2'']. \<forall>c\<in>set ((\<lambda>p. [''c1'', ''c2'']) p).
      logs_stream demo_cluster (namespace demo_flags) p c = Bytes ((\<lambda>p c. ''a\<newline>b\<newline>'') p c) \<and>
      length (filter (\<lambda>l. l \<noteq> []) (Split_nl ((\<lambda>p c. ''a\<newline>b\<newline>'') p c))) = 2"
    using sp by (simp add: demo_cluster_def)
  note rc = retrieval_complete [OF ps K cs raw run, THEN conjunct2, rule_format, OF ret]
  have "main s = MReturned None \<and> tasks s = [] \<and> wg s = 0 \<and> \<not> panicked s \<and>
        length (GetLogs (logStore s)) = 2 * 2 * 2"
    using rc ret by blast
  then show ?thesis
    using ps cs raw sp run by (simp del: Split_nl.simps)
qed

text \<open>
  Claim C2 fails on the code. Pod p has the containers c1, whose stream is one
  line, and c2, whose stream cannot be opened. In the run where both goroutines
  finish and the closer closes both channels before the consumer's first
  \<^verbatim>\<open>select\<close>, the \<^verbatim>\<open>select\<close> takes the \<^verbatim>\<open>logChan\<close> case twice: it stores the
  entry, then sees the channel closed and returns. The operation returns nil
  with the one entry stored, but the error is still in \<^verbatim>\<open>errorChan\<close> and
  nothing was printed. In the run of the same input where the \<^verbatim>\<open>select\<close> takes
  the \<^verbatim>\<open>errorChan\<close> case before the channels are closed, the error is printed.
\<close>

theorem lost_error_run:
  "run partial_cluster partial_flags partial_schedule (retrieveLogs_entry NewLogStorage) =
     Some \<lparr>main = MReturned None, tasks = [], wg = 0, logBuf = [], logClosed = True,
           errBuf = [''failed to retrieve logs for pod p, container c2: error opening log stream: boom''],
           errClosed = True, closer = CDone, consumer = KDone,
           logStore = \<lparr>store_logs =
             [\<lparr>Namespace = ''n'', PodName = ''p'', Container = ''c1'',
               LogContent = ''x'', Timestamp = ''t''\<rparr>]\<rparr>,
           totalLogs = 1, printed = [],
           calls = [CallGetPod ''n'' ''p'', CallGetLogs ''n'' ''p'' ''c1'',
                    CallGetLogs ''n'' ''p'' ''c2''],
           panicked = False\<rparr> \<and>
   run partial_cluster partial_flags delivered_schedule (retrieveLogs_entry NewLogStorage) =
     Some \<lparr>main = MReturned None, tasks = [], wg = 0, logBuf = [], logClosed = True,
           errBuf = [], errClosed = True, closer = CDone, consumer = KDone,
           logStore = \<lparr>store_logs =
             [\<lparr>Namespace = ''n'', PodName = ''p'', Container = ''c1'',
               LogContent = ''x'', Timestamp = ''t''\<rparr>]\<rparr>,
           totalLogs = 1,
           printed = [''Error: failed to retrieve logs for pod p, container c2: error opening log stream: boom''],
           calls = [CallGetPod ''n'' ''p'', CallGetLogs ''n'' ''p'' ''c1'',
                    CallGetLogs ''n'' ''p'' ''c2''],
           panicked = False\<rparr>"
  by (simp add: partial_cluster_def partial_flags_def partial_schedule_def delivered_schedule_def
    retrieveLogs_entry_def NewLogStorage_def ListPods_def ListContainers_def RetrievePodLogs_def
    wg_Done_def select_log_def select_err_def AddLog_def numeral_eq_Suc)

end
